theory Spec2Isabelle
  imports Main
begin

section \<open>Python values, errors and string operations\<close>

text \<open>
  A Python \<open>str\<close> is modelled as a \<open>string\<close> whose characters stand for the code points
  below 256. Exceptions are values of \<open>py_error\<close>; an operation that mutates an object and
  may raise afterwards returns a \<open>status\<close> together with the state it leaves behind.
  A call that waits on the inbound queue for a line that never comes is \<open>Blocked\<close>.
\<close>

datatype py_error =
  AttributeError | KeyError | NameError | IndexError | TypeError | HandlerError

datatype status = Done | Raised py_error | Blocked

datatype pyval = IntV int | StrV string | NoneV

text \<open>\<open>str.isspace\<close> on the code points below 256.\<close>

definition isspace :: "char \<Rightarrow> bool" where
  "isspace c = (c \<in> set [CHR 0x09, CHR 0x0A, CHR 0x0B, CHR 0x0C, CHR 0x0D, CHR 0x1C,
                           CHR 0x1D, CHR 0x1E, CHR 0x1F, CHR 0x20, CHR 0x85, CHR 0xA0])"

definition startswith :: "string \<Rightarrow> string \<Rightarrow> bool" where
  "startswith s p = (take (length p) s = p)"

definition endswith :: "string \<Rightarrow> string \<Rightarrow> bool" where
  "endswith s p = (length p \<le> length s \<and> drop (length s - length p) s = p)"

text \<open>\<open>sub in s\<close> for two strings.\<close>

fun contains :: "string \<Rightarrow> string \<Rightarrow> bool" where
  "contains [] sub = (sub = [])"
| "contains (c # cs) sub = (startswith (c # cs) sub \<or> contains cs sub)"

text \<open>\<open>s.strip()\<close>: whitespace removed at both ends.\<close>

definition lstrip :: "string \<Rightarrow> string" where
  "lstrip s = dropWhile isspace s"

definition rstrip :: "string \<Rightarrow> string" where
  "rstrip s = rev (dropWhile isspace (rev s))"

definition strip :: "string \<Rightarrow> string" where
  "strip s = rstrip (lstrip s)"

text \<open>
  \<open>s.replace(old, new)\<close>: every non-overlapping occurrence, found from the left. With an
  empty \<open>old\<close> Python puts \<open>new\<close> before every character and at the end.
\<close>

function replace :: "string \<Rightarrow> string \<Rightarrow> string \<Rightarrow> string" where
  "replace s old new =
     (if s = [] then (if old = [] then new else [])
      else if old = [] then new @ hd s # replace (tl s) old new
      else if startswith s old then new @ replace (drop (length old) s) old new
      else hd s # replace (tl s) old new)"
  by pat_completeness auto
termination
  by (relation "measure (\<lambda>(s, old, new). length s)") auto

declare replace.simps [simp del]

text \<open>
  \<open>s.split(sep)\<close> keeps empty fields. Python raises ValueError on an empty separator; the
  one call of the source passes the constant line terminator, and here an empty separator
  never matches.
\<close>

function split_from :: "string \<Rightarrow> string \<Rightarrow> string \<Rightarrow> string list" where
  "split_from cur s sep =
     (if s = [] then [cur]
      else if sep \<noteq> [] \<and> startswith s sep then cur # split_from [] (drop (length sep) s) sep
      else split_from (cur @ [hd s]) (tl s) sep)"
  by pat_completeness auto
termination
  by (relation "measure (\<lambda>(cur, s, sep). length s)") auto

declare split_from.simps [simp del]

definition split :: "string \<Rightarrow> string \<Rightarrow> string list" where
  "split s sep = split_from [] s sep"

section \<open>irc.py: History\<close>

record 'a History =
  content :: "'a list"
  limit :: int

definition History_init :: "int \<Rightarrow> 'a History" where
  "History_init lim = \<lparr>content = [], limit = (if lim \<noteq> 0 then lim else 100)\<rparr>"

definition History_len :: "'a History \<Rightarrow> nat" where
  "History_len h = length (content h)"

text \<open>\<open>History.add\<close>; \<open>pop(0)\<close> on an empty list raises IndexError.\<close>

definition History_add :: "'a History \<Rightarrow> 'a \<Rightarrow> py_error + 'a History" where
  "History_add h elmnt =
     (if int (length (content h)) = limit h then
        (case content h of
           [] \<Rightarrow> Inl IndexError
         | _ # rest \<Rightarrow> Inr (h\<lparr>content := rest @ [elmnt]\<rparr>))
      else Inr (h\<lparr>content := content h @ [elmnt]\<rparr>))"

definition History_get :: "'a History \<Rightarrow> 'a list" where
  "History_get h = content h"

text \<open>Successive calls of \<open>add\<close>, stopping at the first exception.\<close>

fun History_add_all :: "'a History \<Rightarrow> 'a list \<Rightarrow> py_error + 'a History" where
  "History_add_all h [] = Inr h"
| "History_add_all h (x # xs) =
     (case History_add h x of Inl e \<Rightarrow> Inl e | Inr h' \<Rightarrow> History_add_all h' xs)"

section \<open>irc.py: Message\<close>

record Message =
  author :: string
  to :: string
  text_of :: string

section \<open>api.py: argument coercion\<close>

text \<open>
  A declared parameter type is a callable applied to one token: \<open>None\<close> stands for any
  exception it raises. \<open>py_int\<close> and \<open>py_str\<close> are the builtins \<open>int\<close> and \<open>str\<close> on a
  \<open>str\<close> argument (the interpreter's configurable limit on the number of digits is left out).
\<close>

type_synonym pytype = "string \<Rightarrow> pyval option"

definition int_space :: "char \<Rightarrow> bool" where
  "int_space c = (c \<in> set [CHR 0x09, CHR 0x0A, CHR 0x0B, CHR 0x0C, CHR 0x0D, CHR 0x20,
                             CHR 0x85, CHR 0xA0])"

definition isdigit :: "char \<Rightarrow> bool" where
  "isdigit c = (c \<in> set ''0123456789'')"

definition digit_val :: "char \<Rightarrow> int" where
  "digit_val c = int (of_char c) - 48"

fun digits_ok :: "string \<Rightarrow> bool" where
  "digits_ok [] = False"
| "digits_ok [c] = isdigit c"
| "digits_ok (c # d # r) =
     (isdigit c \<and> (if d = CHR ''_'' then digits_ok r else digits_ok (d # r)))"

definition digits_value :: "string \<Rightarrow> int" where
  "digits_value ds = foldl (\<lambda>acc c. if c = CHR ''_'' then acc else 10 * acc + digit_val c) 0 ds"

definition py_int :: pytype where
  "py_int s =
     (let t = rev (dropWhile int_space (rev (dropWhile int_space s)));
          neg = (t \<noteq> [] \<and> hd t = CHR ''-'');
          body = (if t \<noteq> [] \<and> (hd t = CHR ''+'' \<or> hd t = CHR ''-'') then tl t else t)
      in if digits_ok body
         then Some (IntV (if neg then - digits_value body else digits_value body))
         else None)"

definition py_str :: pytype where
  "py_str s = Some (StrV s)"

text \<open>
  A handler function: \<open>__annotations__\<close> (a dict, in declaration order), \<open>__defaults__\<close>
  (\<open>None\<close> and the empty tuple are both the empty list: the source replaces either by
  \<open>[]\<close>), and its body. The body is abstracted to what the dispatch loop can observe: it
  raises, or it returns after asking the bot to send the listed (target, message) pairs.
\<close>

record func =
  annotations :: "(string \<times> pytype) list"
  defaults :: "pyval list"
  body :: "Message \<Rightarrow> pyval list \<Rightarrow> py_error + (string \<times> string) list"

text \<open>
  A slot of \<open>converted_args\<close>: the fresh \<open>WrongArg()\<close> instance of the call, which is
  equal to no other object, or a value.
\<close>

datatype slot = WrongArg | Val pyval

fun the_val :: "slot \<Rightarrow> pyval" where
  "the_val (Val v) = v"
| "the_val WrongArg = NoneV"

definition convert :: "string \<Rightarrow> pytype \<Rightarrow> slot \<Rightarrow> slot" where
  "convert data new_type dflt =
     (case new_type data of Some v \<Rightarrow> Val v | None \<Rightarrow> dflt)"

definition check_slot :: "pyval list \<Rightarrow> int \<Rightarrow> string list \<Rightarrow> nat \<times> pytype \<Rightarrow> slot" where
  "check_slot dflts required_args input_args p =
     (let index = fst p; arg_type = snd p;
          check_args = (if int index + 1 > required_args
                        then (arg_type, Val (dflts ! nat (int index - required_args)))
                        else (arg_type, WrongArg))
      in if length input_args > index
         then convert (input_args ! index) (fst check_args) (snd check_args)
         else snd check_args)"

definition check_args :: "func \<Rightarrow> string list \<Rightarrow> pyval list option" where
  "check_args f input_args =
     (let dflts = defaults f; annots = annotations f in
      if annots = [] then Some []
      else
        let required_args = int (length annots) - int (length dflts) in
        if int (length input_args) < required_args then None
        else
          let converted_args =
                map (check_slot dflts required_args input_args) (enumerate 0 (map snd annots))
          in if WrongArg \<in> set converted_args then None
             else Some (map the_val converted_args))"

text \<open>
  The coercion algorithm as the specification words it (section 4.3, steps 1 to 5), to be
  compared with \<open>check_args\<close>: the required count, the rejection of too few tokens, and
  for each position the converted token, else the default of that position if it has one.
\<close>

definition spec_position :: "pytype list \<Rightarrow> pyval list \<Rightarrow> string list \<Rightarrow> nat \<Rightarrow> pyval option" where
  "spec_position types dflts tokens i =
     (let requiredCount = int (length types) - int (length dflts);
          has_default = (requiredCount \<le> int i);
          dflt = dflts ! nat (int i - requiredCount)
      in if i < length tokens
         then (case (types ! i) (tokens ! i) of
                 Some v \<Rightarrow> Some v
               | None \<Rightarrow> if has_default then Some dflt else None)
         else Some dflt)"

definition spec_coerce :: "pytype list \<Rightarrow> pyval list \<Rightarrow> string list \<Rightarrow> pyval list option" where
  "spec_coerce types dflts tokens =
     (let requiredCount = int (length types) - int (length dflts) in
      if int (length tokens) < requiredCount then None
      else
        let r = map (spec_position types dflts tokens) [0..<length types]
        in if None \<in> set r then None else Some (map the r))"

text \<open>A slot read as an optional value.\<close>

definition opt_of_slot :: "slot \<Rightarrow> pyval option" where
  "opt_of_slot s = (case s of WrongArg \<Rightarrow> None | Val v \<Rightarrow> Some v)"


section \<open>api.py: the command decorator\<close>

text \<open>
  The alias tuple after \<open>alias += (name,)\<close>, and the predicate the decorator builds. The
  predicate reads the module's global \<open>PREFIX\<close> when it is called; the global is passed
  here as the first argument.
\<close>

definition command_alias :: "string \<Rightarrow> string list \<Rightarrow> string list" where
  "command_alias name alias =
     (if alias = [] \<or> name \<notin> set alias then alias @ [name] else alias)"

definition command_event :: "string \<Rightarrow> string list \<Rightarrow> Message \<Rightarrow> bool" where
  "command_event PREFIX alias m =
     (True \<in> set (map (\<lambda>cmd. text_of m = PREFIX @ cmd \<or>
                              startswith (text_of m) (PREFIX @ cmd @ '' '')) alias))"

section \<open>irc.py: IRC\<close>

text \<open>
  The connection object. \<open>socket_out\<close> lists the strings handed to \<open>socket.send\<close>, in
  order and before their encoding. \<open>inbox\<close> is the queue between the reader thread and the
  consumers: the reader appends to it, and a consumer's \<open>get\<close> takes its head. For a
  consumer the list stands for every line the reader puts, now or later, so that \<open>get\<close> on
  the empty list waits for ever.
\<close>

record IRC =
  connected :: bool
  socket_out :: "string list"
  inbox :: "string list"

definition CRLF :: string where
  "CRLF = [CHR 0x0D, CHR 0x0A]"

definition IRC_init :: IRC where
  "IRC_init = \<lparr>connected = False, socket_out = [], inbox = []\<rparr>"

definition IRC_send :: "IRC \<Rightarrow> string \<Rightarrow> IRC" where
  "IRC_send irc raw = irc\<lparr>socket_out := socket_out irc @ [raw @ CRLF]\<rparr>"

definition IRC_join :: "IRC \<Rightarrow> string \<Rightarrow> IRC" where
  "IRC_join irc channel = IRC_send irc (''JOIN '' @ channel)"

text \<open>
  \<open>waitfor\<close>: lines are taken from the queue until one satisfies the condition. \<open>None\<close>
  is the call that never returns.
\<close>

fun waitfor_inbox :: "(string \<Rightarrow> bool) \<Rightarrow> string list \<Rightarrow> (string \<times> string list) option" where
  "waitfor_inbox condition [] = None"
| "waitfor_inbox condition (msg # q) =
     (if condition msg then Some (msg, q) else waitfor_inbox condition q)"

definition waitfor :: "IRC \<Rightarrow> (string \<Rightarrow> bool) \<Rightarrow> string option \<times> IRC" where
  "waitfor irc condition =
     (case waitfor_inbox condition (inbox irc) of
        None \<Rightarrow> (None, irc\<lparr>inbox := []\<rparr>)
      | Some (msg, q) \<Rightarrow> (Some msg, irc\<lparr>inbox := q\<rparr>))"

text \<open>
  Name lookup in the body of \<open>connexion\<close>. Its parameters are \<open>self\<close>, \<open>nick\<close> and
  \<open>auth\<close>, and the module binds no \<open>username\<close> or \<open>password\<close>: of the names the
  format strings read, only \<open>nick\<close> is bound.
\<close>

definition connexion_scope :: "string \<Rightarrow> (string \<rightharpoonup> string)" where
  "connexion_scope nick = [''nick'' \<mapsto> nick]"

definition lookup_name :: "(string \<rightharpoonup> string) \<Rightarrow> string \<Rightarrow> py_error + string" where
  "lookup_name scope x = (case scope x of None \<Rightarrow> Inl NameError | Some v \<Rightarrow> Inr v)"

text \<open>
  \<open>connexion\<close>; \<open>auth\<close> is a tuple of strings, true when it is not empty. The reader
  thread it starts is \<open>handle\<close> below.
\<close>

definition connexion_login :: "IRC \<Rightarrow> status \<times> IRC" where
  "connexion_login irc =
     (case waitfor irc (\<lambda>m. contains m ''You are now logged in'') of
        (None, irc') \<Rightarrow> (Blocked, irc')
      | (Some _, irc') \<Rightarrow> (Done, irc'\<lparr>connected := True\<rparr>))"

definition connexion :: "IRC \<Rightarrow> string \<Rightarrow> string list \<Rightarrow> status \<times> IRC" where
  "connexion irc nick auth =
     (let scope = connexion_scope nick;
          irc1 = IRC_send irc (''USER '' @ nick @ '' * * :'' @ nick);
          irc2 = IRC_send irc1 (''NICK '' @ nick)
      in if auth \<noteq> [] then
           (case waitfor irc2 (\<lambda>m. contains m ''NOTICE'' \<and> contains m ''/AUTH'') of
              (None, irc3) \<Rightarrow> (Blocked, irc3)
            | (Some _, irc3) \<Rightarrow>
                (case lookup_name scope ''username'' of
                   Inl e \<Rightarrow> (Raised e, irc3)
                 | Inr username \<Rightarrow>
                     (case lookup_name scope ''password'' of
                        Inl e \<Rightarrow> (Raised e, irc3)
                      | Inr password \<Rightarrow>
                          connexion_login
                            (IRC_send irc3 (''AUTH '' @ username @ '':'' @ password)))))
         else connexion_login irc2)"

text \<open>
  The reader thread \<open>__handle\<close>: the body of its inner loop for one line, the inner loop
  for one received and decoded chunk, and the outer loop over the chunks received so far.
\<close>

definition handle_msg :: "IRC \<Rightarrow> string \<Rightarrow> IRC" where
  "handle_msg irc msg =
     (if startswith msg ''PING'' then IRC_send irc (replace msg ''PING'' ''PONG'')
      else if length msg \<noteq> 0 then irc\<lparr>inbox := inbox irc @ [msg]\<rparr>
      else irc)"

definition handle_data :: "IRC \<Rightarrow> string \<Rightarrow> IRC" where
  "handle_data irc data = foldl handle_msg irc (split data CRLF)"

definition handle :: "IRC \<Rightarrow> string list \<Rightarrow> IRC" where
  "handle irc chunks = foldl handle_data irc chunks"

section \<open>The patterns of the re module\<close>

text \<open>
  The two patterns of the source are built from literals, character classes under a greedy
  \<open>+\<close> or \<open>*\<close>, a greedy optional group, alternation and capturing groups. \<open>rmatch\<close>
  matches a pattern at the start of a string and lists every way to succeed as the rest
  of the string and the groups captured, in the order in which the backtracking matcher of
  \<open>re\<close> tries them: longest repetition first, the optional part before its omission, the
  left alternative before the right one. The matcher takes the first.
\<close>

datatype regex =
    Lit string
  | PlusC "char \<Rightarrow> bool"
  | StarC "char \<Rightarrow> bool"
  | Opt regex
  | Seq regex regex
  | Alt regex regex
  | Group string regex

type_synonym groups = "string \<rightharpoonup> string"

fun rmatch :: "regex \<Rightarrow> string \<Rightarrow> groups \<Rightarrow> (string \<times> groups) list" where
  "rmatch (Lit l) s g = (if startswith s l then [(drop (length l) s, g)] else [])"
| "rmatch (PlusC P) s g =
     map (\<lambda>k. (drop k s, g)) (rev [1..<Suc (length (takeWhile P s))])"
| "rmatch (StarC P) s g =
     map (\<lambda>k. (drop k s, g)) (rev [0..<Suc (length (takeWhile P s))])"
| "rmatch (Opt r) s g = rmatch r s g @ [(s, g)]"
| "rmatch (Seq r1 r2) s g =
     concat (map (\<lambda>(s', g'). rmatch r2 s' g') (rmatch r1 s g))"
| "rmatch (Alt r1 r2) s g = rmatch r1 s g @ rmatch r2 s g"
| "rmatch (Group name r) s g =
     map (\<lambda>(s', g'). (s', g'(name \<mapsto> take (length s - length s') s))) (rmatch r s g)"

text \<open>\<open>re.match\<close>: the matched text and the groups, or \<open>None\<close>.\<close>

definition re_match :: "regex \<Rightarrow> string \<Rightarrow> (string \<times> groups) option" where
  "re_match r s =
     (case rmatch r s Map.empty of
        [] \<Rightarrow> None
      | (s', g) # _ \<Rightarrow> Some (take (length s - length s') s, g))"

text \<open>
  \<open>re.findall\<close> for a pattern with groups: one tuple of the named groups for each match,
  scanning from the left; a group that took no part gives the empty string. After a match
  the scan goes on behind it, and behind the next character when the match is empty.
\<close>

definition group_or_empty :: "groups \<Rightarrow> string \<Rightarrow> string" where
  "group_or_empty g name = (case g name of None \<Rightarrow> [] | Some x \<Rightarrow> x)"

function findall :: "regex \<Rightarrow> string list \<Rightarrow> string \<Rightarrow> string list list" where
  "findall r names s =
     (case re_match r s of
        None \<Rightarrow> (if s = [] then [] else findall r names (tl s))
      | Some (m, g) \<Rightarrow>
          map (group_or_empty g) names #
            (if s = [] then [] else findall r names (drop (max 1 (length m)) s)))"
  by pat_completeness auto
termination
  by (relation "measure (\<lambda>(r, names, s). length s)") auto

declare findall.simps [simp del]

section \<open>irc.py: parsing a line into a Message\<close>

text \<open>
  The character classes of \<open>Message.pattern\<close> on the code points below 256: \<open>\w\<close> is an
  alphanumeric character or the underscore, \<open>\S\<close> is a character that is no whitespace,
  and the dot is any character but the newline.
\<close>

definition is_word :: "char \<Rightarrow> bool" where
  "is_word c =
     (let n = (of_char c :: nat) in
      (48 \<le> n \<and> n \<le> 57) \<or> (65 \<le> n \<and> n \<le> 90) \<or> n = 95 \<or> (97 \<le> n \<and> n \<le> 122) \<or>
      n = 170 \<or> n = 178 \<or> n = 179 \<or> n = 181 \<or> n = 185 \<or> n = 186 \<or>
      n = 188 \<or> n = 189 \<or> n = 190 \<or>
      (192 \<le> n \<and> n \<le> 214) \<or> (216 \<le> n \<and> n \<le> 246) \<or> (248 \<le> n \<and> n \<le> 255))"

definition author_char :: "char \<Rightarrow> bool" where
  "author_char c = (is_word c \<or> c \<in> set ''.~|-[]'')"

definition nonspace :: "char \<Rightarrow> bool" where
  "nonspace c = (\<not> isspace c)"

definition dot :: "char \<Rightarrow> bool" where
  "dot c = (c \<noteq> CHR 0x0A)"

definition Message_pattern :: regex where
  "Message_pattern =
     Seq (Lit '':'')
    (Seq (Group ''author'' (PlusC author_char))
    (Seq (Opt (Seq (Lit ''!'') (Group ''host'' (PlusC nonspace))))
    (Seq (Lit '' PRIVMSG '')
    (Seq (Group ''to'' (PlusC nonspace))
    (Seq (Lit '' :'')
         (Group ''text'' (PlusC dot)))))))"

text \<open>
  \<open>Message_pattern\<close> read from the right, piece by piece: the text, the destination
  followed by the text, and the optional host followed by both.
\<close>

definition text_part :: regex where
  "text_part = Seq (Lit '' :'') (Group ''text'' (PlusC dot))"

definition to_part :: regex where
  "to_part = Seq (Lit '' PRIVMSG '') (Seq (Group ''to'' (PlusC nonspace)) text_part)"

definition host_part :: regex where
  "host_part = Seq (Opt (Seq (Lit ''!'') (Group ''host'' (PlusC nonspace)))) to_part"

text \<open>
  \<open>re.search(Message.pattern, raw)\<close>: the pattern begins with \<open>^\<close> and is compiled
  without \<open>re.MULTILINE\<close>, so the search can succeed at the start of the line only.
\<close>

definition Message_search :: "string \<Rightarrow> (string \<times> groups) option" where
  "Message_search raw = re_match Message_pattern raw"

definition Message_init :: "string \<Rightarrow> Message" where
  "Message_init raw =
     (case Message_search raw of
        Some (m, g) \<Rightarrow>
          \<lparr>author = the (g ''author''), to = the (g ''to''), text_of = the (g ''text'')\<rparr>
      | None \<Rightarrow> \<lparr>author = '''', to = '''', text_of = ''''\<rparr>)"

section \<open>api.py: parse\<close>

definition dquote :: char where
  "dquote = CHR 0x22"

definition squote :: char where
  "squote = CHR 0x27"

text \<open>
  The pattern of \<open>parse\<close>, \<open>(("[^"]+"\ *)|('[^']+'\ *)|([^\ ]+\ *))\<close>: a quoted
  substring followed by spaces, for either quote, or characters other than the space
  followed by spaces.
\<close>

definition quoted_re :: "char \<Rightarrow> regex" where
  "quoted_re q =
     Seq (Lit [q]) (Seq (PlusC (\<lambda>c. c \<noteq> q)) (Seq (Lit [q]) (StarC (\<lambda>c. c = CHR '' ''))))"

definition plain_re :: regex where
  "plain_re = Seq (PlusC (\<lambda>c. c \<noteq> CHR '' '')) (StarC (\<lambda>c. c = CHR '' ''))"

definition parse_pattern :: regex where
  "parse_pattern =
     Group ''1''
       (Alt (Group ''2'' (quoted_re dquote))
       (Alt (Group ''3'' (quoted_re squote))
            (Group ''4'' plain_re)))"

text \<open>
  The loop of \<open>parse\<close> for one match: \<open>match[0]\<close> is the whole match, stripped, and
  loses its first and last character when it begins and ends with the same quote.
\<close>

definition parse_token :: "string list \<Rightarrow> string" where
  "parse_token tuple =
     (let match = rstrip (strip (tuple ! 0)) in
      if (startswith match [dquote] \<and> endswith match [dquote])
         \<or> (startswith match [squote] \<and> endswith match [squote])
      then butlast (tl match)
      else match)"

definition parse :: "string \<Rightarrow> string list" where
  "parse message =
     map parse_token (findall parse_pattern [''1'', ''2'', ''3'', ''4''] message)"

text \<open>
  The first match of the pattern at the start of a string, without the pattern: a quoted
  substring is a quote, one or more characters other than that quote, and the quote
  again. \<open>match_len\<close> is the length of the match: that of the quoted substring, for the
  double quote first, or else that of the characters before the first space, and that of
  the spaces that follow; it is 0 when there is no match.
\<close>

definition quoted :: "char \<Rightarrow> string \<Rightarrow> bool" where
  "quoted q s =
     (startswith s [q] \<and> takeWhile (\<lambda>c. c \<noteq> q) (drop 1 s) \<noteq> [] \<and>
      startswith (dropWhile (\<lambda>c. c \<noteq> q) (drop 1 s)) [q])"

definition word_len :: "string \<Rightarrow> nat" where
  "word_len s =
     (if quoted dquote s then 2 + length (takeWhile (\<lambda>c. c \<noteq> dquote) (drop 1 s))
      else if quoted squote s then 2 + length (takeWhile (\<lambda>c. c \<noteq> squote) (drop 1 s))
      else length (takeWhile (\<lambda>c. c \<noteq> CHR '' '') s))"

definition match_len :: "string \<Rightarrow> nat" where
  "match_len s =
     (if word_len s = 0 then 0
      else word_len s + length (takeWhile (\<lambda>c. c = CHR '' '') (drop (word_len s) s)))"

text \<open>
  A text written token by token: a plain token is a word without spaces, with no
  whitespace at its ends and no quote at its start; a quoted token is a non-empty string
  without the quote that encloses it. The tokens are written one after the other,
  separated by a space.
\<close>

datatype token = Plain string | Quoted char string

fun render :: "token \<Rightarrow> string" where
  "render (Plain w) = w"
| "render (Quoted q w) = q # w @ [q]"

fun token_text :: "token \<Rightarrow> string" where
  "token_text (Plain w) = w"
| "token_text (Quoted q w) = w"

fun well_formed :: "token \<Rightarrow> bool" where
  "well_formed (Plain w) =
     (w \<noteq> [] \<and> CHR '' '' \<notin> set w \<and> \<not> isspace (hd w) \<and> \<not> isspace (last w) \<and>
      hd w \<noteq> dquote \<and> hd w \<noteq> squote)"
| "well_formed (Quoted q w) = ((q = dquote \<or> q = squote) \<and> w \<noteq> [] \<and> q \<notin> set w)"

fun join_tokens :: "token list \<Rightarrow> string" where
  "join_tokens [] = []"
| "join_tokens [t] = render t"
| "join_tokens (t # u # ts) = render t @ '' '' @ join_tokens (u # ts)"

text \<open>
  The line shape as the specification words it (section 4.1),
  \<open>:<author>[!<host>] PRIVMSG <destination> :<text>\<close>, to be compared with
  \<open>Message_search\<close>: the line is read from the left and every field is as long as its
  characters allow; the result is the author, the host if there is one, the destination
  and the text.
\<close>

definition privmsg_shape :: "string \<Rightarrow> (string \<times> string option \<times> string \<times> string) option" where
  "privmsg_shape raw =
     (if \<not> startswith raw '':'' then None
      else
        let r1 = drop 1 raw;
            a = takeWhile author_char r1;
            r2 = dropWhile author_char r1;
            h = (if startswith r2 ''!'' then Some (takeWhile nonspace (drop 1 r2)) else None);
            r3 = (if startswith r2 ''!'' then dropWhile nonspace (drop 1 r2) else r2);
            r4 = drop 9 r3;
            t = takeWhile nonspace r4;
            r5 = dropWhile nonspace r4;
            r6 = drop 2 r5;
            x = takeWhile dot r6
        in if a = [] \<or> h = Some [] \<or> \<not> startswith r3 '' PRIVMSG '' \<or> t = []
              \<or> \<not> startswith r5 '' :'' \<or> x = []
           then None
           else Some (a, h, t, x))"

section \<open>api.py: Command\<close>

text \<open>
  The attribute \<open>events\<close> of a Command is a list of predicates on the Message, or, for a
  periodic rule built by \<open>every\<close>, the period in seconds (a number, of which nothing but
  its not being a list matters below). A predicate built by \<open>command\<close> reads the global
  \<open>PREFIX\<close> when it is called, so every predicate takes the global as its first argument.
  The fields \<open>name\<close> of a Command and \<open>prefix\<close>, \<open>irc\<close> and \<open>auth\<close> of a Bot carry the
  suffix \<open>_of\<close>. The attribute \<open>bot\<close> of a Command, set by \<open>add_command\<close>, is passed to
  the handler and is part of what the body of a \<open>func\<close> abstracts.
\<close>

datatype events_attr = Events "(string \<Rightarrow> Message \<Rightarrow> bool) list" | Every int

record Command =
  name_of :: string
  func :: func
  events :: events_attr
  desc :: string
  cmnd_type :: int

text \<open>\<open>Command.__init__\<close>; \<open>doc\<close> is \<open>func.__doc__\<close>, empty when there is none.\<close>

definition Command_init :: "string \<Rightarrow> func \<Rightarrow> string \<Rightarrow> events_attr \<Rightarrow> string \<Rightarrow> int \<Rightarrow> Command" where
  "Command_init name f doc evs dsc ct =
     \<lparr>name_of = name, func = f, events = evs,
      desc = (if dsc \<noteq> [] then dsc else if doc \<noteq> [] then doc else ''...''),
      cmnd_type = ct\<rparr>"

text \<open>The decorator \<open>command(name, alias, desc)\<close> applied to a function.\<close>

definition command_decorator :: "string \<Rightarrow> string list \<Rightarrow> string \<Rightarrow> func \<Rightarrow> string \<Rightarrow> Command" where
  "command_decorator name alias dsc f doc =
     Command_init name f doc
       (Events [\<lambda>PREFIX. command_event PREFIX (command_alias name alias)]) dsc 1"

text \<open>
  \<open>Command.__call__\<close> runs the handler. The calls made are recorded, in order, as the name
  of the rule and the arguments passed after the message.
\<close>

type_synonym calls = "(string \<times> pyval list) list"

section \<open>api.py: Bot\<close>

text \<open>
  The attribute \<open>history\<close> holds whatever object was assigned to it: an \<open>int\<close> or a
  \<open>History\<close> of Messages. A dict is an association list in insertion order with distinct
  keys: assigning to a present key keeps its place, assigning to a new key appends, and
  \<open>pop\<close> of an absent key raises KeyError.
\<close>

datatype history_attr = IntAttr int | HistoryAttr "Message History"

fun dict_set :: "('k \<times> 'v) list \<Rightarrow> 'k \<Rightarrow> 'v \<Rightarrow> ('k \<times> 'v) list" where
  "dict_set [] k v = [(k, v)]"
| "dict_set ((k', v') # d) k v =
     (if k' = k then (k, v) # d else (k', v') # dict_set d k v)"

definition dict_keys :: "('k \<times> 'v) list \<Rightarrow> 'k list" where
  "dict_keys d = map fst d"

definition dict_values :: "('k \<times> 'v) list \<Rightarrow> 'v list" where
  "dict_values d = map snd d"

definition dict_pop :: "('k \<times> 'v) list \<Rightarrow> 'k \<Rightarrow> py_error + ('k \<times> 'v) list" where
  "dict_pop d k =
     (if k \<in> set (dict_keys d) then Inr (filter (\<lambda>(k', v'). k' \<noteq> k) d) else Inl KeyError)"

record Bot =
  prefix_of :: string
  irc_of :: IRC
  history :: history_attr
  channels :: "string list"
  auth_of :: "string list"
  callbacks :: "(string \<times> Command) list"
  commands_help :: "(string \<times> Command) list"
  threads :: "Command list"

text \<open>
  \<open>add_command\<close>: a periodic rule starts a thread, recorded here by its rule; any other
  rule is stored in \<open>callbacks\<close> under its name.
\<close>

definition add_command :: "Bot \<Rightarrow> Command \<Rightarrow> bool \<Rightarrow> Bot" where
  "add_command self command add_to_help =
     (let self1 = (if cmnd_type command = 2
                   then self\<lparr>threads := threads self @ [command]\<rparr>
                   else self\<lparr>callbacks := dict_set (callbacks self) (name_of command) command\<rparr>)
      in if add_to_help
         then self1\<lparr>commands_help := dict_set (commands_help self1) (name_of command) command\<rparr>
         else self1)"

definition add_commands :: "Bot \<Rightarrow> Command list \<Rightarrow> Bot" where
  "add_commands self commands =
     (let add_to_help = (''auto_help'' \<in> set (map name_of commands))
      in foldl (\<lambda>b command. add_command b command add_to_help) self commands)"

text \<open>
  A module of commands is the list \<open>dir(module)\<close> of its attribute names, each with its
  value when the value is a Command.
\<close>

type_synonym commands_module = "(string \<times> Command option) list"

definition add_commands_module :: "Bot \<Rightarrow> commands_module \<Rightarrow> Bot" where
  "add_commands_module self commands_module =
     (let add_to_help = (''auto_help'' \<in> set (map fst commands_module))
      in foldl (\<lambda>b (cmnd_name, cmnd).
                  case cmnd of None \<Rightarrow> b | Some c \<Rightarrow> add_command b c add_to_help)
           self commands_module)"

definition add_commands_modules :: "Bot \<Rightarrow> commands_module list \<Rightarrow> Bot" where
  "add_commands_modules self commands_modules =
     foldl add_commands_module self commands_modules"

text \<open>
  \<open>Bot.__init__\<close>: the result is the new value of the global \<open>PREFIX\<close> and the bot. The
  attribute \<open>history\<close> is assigned the number \<open>limit\<close>.
\<close>

definition Bot_init :: "string list \<Rightarrow> string list \<Rightarrow> string \<Rightarrow> int \<Rightarrow> commands_module list \<Rightarrow> string \<times> Bot" where
  "Bot_init auth chans prefix lim commands_modules =
     (let PREFIX = prefix;
          self = \<lparr>prefix_of = PREFIX, irc_of = IRC_init, history = IntAttr lim,
                  channels = chans, auth_of = auth, callbacks = [], commands_help = [],
                  threads = []\<rparr>
      in (PREFIX,
          if commands_modules \<noteq> [] then add_commands_modules self commands_modules
          else self))"

text \<open>\<open>remove_command\<close>: the first \<open>pop\<close> has taken effect when the second one raises.\<close>

definition remove_command :: "Bot \<Rightarrow> string \<Rightarrow> status \<times> Bot" where
  "remove_command self command_name =
     (if command_name \<in> set (dict_keys (callbacks self)) then
        (case dict_pop (callbacks self) command_name of
           Inl e \<Rightarrow> (Raised e, self)
         | Inr cbs \<Rightarrow>
             (let self1 = self\<lparr>callbacks := cbs\<rparr> in
              case dict_pop (commands_help self1) command_name of
                Inl e \<Rightarrow> (Raised e, self1)
              | Inr hlp \<Rightarrow> (Done, self1\<lparr>commands_help := hlp\<rparr>)))
      else (Done, self))"

text \<open>
  \<open>str.splitlines\<close> on the code points below 256: a line ends at a line feed, a
  carriage return (with the line feed that follows it, if any), a vertical tab, a form
  feed, a file, group or record separator, or a next-line character.
\<close>

definition linebreak :: "char \<Rightarrow> bool" where
  "linebreak c = (of_char c \<in> set [10, 11, 12, 13, 28, 29, 30, 133 :: nat])"

fun splitlines_from :: "string \<Rightarrow> string \<Rightarrow> string list" where
  "splitlines_from cur [] = (if cur = [] then [] else [cur])"
| "splitlines_from cur (c # s) =
     (if linebreak c then
        cur # (case s of
                 [] \<Rightarrow> splitlines_from [] s
               | d # s' \<Rightarrow>
                   if c = CHR 0x0D \<and> d = CHR 0x0A then splitlines_from [] s'
                   else splitlines_from [] s)
      else splitlines_from (cur @ [c]) s)"

definition splitlines :: "string \<Rightarrow> string list" where
  "splitlines s = splitlines_from [] s"

definition Bot_send :: "Bot \<Rightarrow> string \<Rightarrow> string \<Rightarrow> Bot" where
  "Bot_send self target message =
     self\<lparr>irc_of := foldl (\<lambda>i line. IRC_send i (''PRIVMSG '' @ target @ '' :'' @ line))
                       (irc_of self) (splitlines message)\<rparr>"

text \<open>
  \<open>IRC.receive\<close>: lines are taken from the queue until one contains " PRIVMSG "; the
  Message built from it is returned, since an object of class Message is always true.
  \<open>None\<close> is the call that never returns.
\<close>

definition receive :: "IRC \<Rightarrow> Message option \<times> IRC" where
  "receive irc =
     (case waitfor irc (\<lambda>message. contains message '' PRIVMSG '') of
        (None, irc') \<Rightarrow> (None, irc')
      | (Some message, irc') \<Rightarrow> (Some (Message_init message), irc'))"

text \<open>
  The call of a rule, \<open>callback(message, *args)\<close>: the call is recorded, the handler runs,
  and what it asked the bot to send is sent.
\<close>

definition Command_call :: "Command \<Rightarrow> Message \<Rightarrow> pyval list \<Rightarrow> Bot \<times> calls \<Rightarrow> status \<times> Bot \<times> calls" where
  "Command_call callback msg args st =
     (case st of (self, cs) \<Rightarrow>
        (case body (func callback) msg args of
           Inl e \<Rightarrow> (Raised e, self, cs @ [(name_of callback, args)])
         | Inr sends \<Rightarrow>
             (Done, foldl (\<lambda>b (target, message). Bot_send b target message) self sends,
              cs @ [(name_of callback, args)])))"

text \<open>
  \<open>not False in [event(message) for event in callback.events]\<close>; iterating over the
  number of a periodic rule raises TypeError.
\<close>

definition events_hold :: "string \<Rightarrow> events_attr \<Rightarrow> Message \<Rightarrow> py_error + bool" where
  "events_hold PREFIX evs message =
     (case evs of
        Events es \<Rightarrow> Inr (False \<notin> set (map (\<lambda>event. event PREFIX message) es))
      | Every t \<Rightarrow> Inl TypeError)"

definition wrong_args_reply :: string where
  "wrong_args_reply = ''Erreur : les arguments donn'' @ [CHR 0xE9] @ ''s ne correspondent pas.''"

text \<open>
  The body of \<open>for callback in self.callbacks.values()\<close> for one rule, and the loop; an
  exception ends the loop.
\<close>

definition dispatch_one :: "string \<Rightarrow> Message \<Rightarrow> Command \<Rightarrow> Bot \<times> calls \<Rightarrow> status \<times> Bot \<times> calls" where
  "dispatch_one PREFIX message callback st =
     (case events_hold PREFIX (events callback) message of
        Inl e \<Rightarrow> (Raised e, st)
      | Inr matched \<Rightarrow>
          if matched then
            if cmnd_type callback = 0 then Command_call callback message [] st
            else if cmnd_type callback = 1 then
              (case check_args (func callback) (drop 1 (parse (text_of message))) of
                 Some args \<Rightarrow> Command_call callback message args st
               | None \<Rightarrow> (Done, Bot_send (fst st) (to message) wrong_args_reply, snd st))
            else (Done, st)
          else (Done, st))"

fun dispatch :: "string \<Rightarrow> Message \<Rightarrow> Command list \<Rightarrow> Bot \<times> calls \<Rightarrow> status \<times> Bot \<times> calls" where
  "dispatch PREFIX message [] st = (Done, st)"
| "dispatch PREFIX message (callback # rest) st =
     (case dispatch_one PREFIX message callback st of
        (Done, st') \<Rightarrow> dispatch PREFIX message rest st'
      | r \<Rightarrow> r)"

text \<open>\<open>self.history.add(message)\<close>: an \<open>int\<close> has no attribute \<open>add\<close>.\<close>

definition history_add :: "history_attr \<Rightarrow> Message \<Rightarrow> py_error + history_attr" where
  "history_add hist message =
     (case hist of
        IntAttr n \<Rightarrow> Inl AttributeError
      | HistoryAttr h \<Rightarrow>
          (case History_add h message of Inl e \<Rightarrow> Inl e | Inr h' \<Rightarrow> Inr (HistoryAttr h')))"

text \<open>
  The main loop of \<open>Bot.start\<close>. It never returns: it ends by an exception, or it waits
  for ever on the queue. The result \<open>None\<close> would be a loop that runs for ever.
\<close>

partial_function (option) mainloop :: "string \<Rightarrow> Bot \<Rightarrow> calls \<Rightarrow> (status \<times> Bot \<times> calls) option" where
  "mainloop PREFIX self cs =
     (case receive (irc_of self) of
        (None, irc') \<Rightarrow> Some (Blocked, self\<lparr>irc_of := irc'\<rparr>, cs)
      | (Some message, irc') \<Rightarrow>
          (let self1 = self\<lparr>irc_of := irc'\<rparr> in
           case history_add (history self1) message of
             Inl e \<Rightarrow> Some (Raised e, self1, cs)
           | Inr hist \<Rightarrow>
               (let r = dispatch PREFIX message (dict_values (callbacks self1))
                          (self1\<lparr>history := hist\<rparr>, cs)
                in if fst r = Done then mainloop PREFIX (fst (snd r)) (snd (snd r))
                   else Some r)))"

text \<open>\<open>Bot.start\<close>: the handshake, the channels, the main loop.\<close>

definition start :: "string \<Rightarrow> Bot \<Rightarrow> string \<Rightarrow> (status \<times> Bot \<times> calls) option" where
  "start PREFIX self nick =
     (case connexion (irc_of self) nick (auth_of self) of
        (Done, irc1) \<Rightarrow>
          mainloop PREFIX (self\<lparr>irc_of := foldl IRC_join irc1 (channels self)\<rparr>) []
      | (st, irc1) \<Rightarrow> Some (st, self\<lparr>irc_of := irc1\<rparr>, []))"



section \<open>Example rules and messages\<close>

text \<open>
  A handler that answers "pong", the Named rule \<open>ping\<close> built by the decorator, a
  predicate rule on the channel #general, a Named rule whose handler takes an \<open>int\<close>,
  the bot built by \<open>Bot.__init__\<close> with prefix "!" and the default limit, and some lines
  and messages.
\<close>

definition pong :: func where
  "pong = \<lparr>annotations = [], defaults = [], body = (\<lambda>m args. Inr [(to m, ''pong'')])\<rparr>"

definition ping_rule :: Command where
  "ping_rule = command_decorator ''ping'' [] ''Answer pong.'' pong []"

definition bot0 :: Bot where
  "bot0 = snd (Bot_init [] [''#general''] ''!'' 100 [])"

definition logged_in_line :: string where
  "logged_in_line = '':srv 900 bot :You are now logged in''"

definition ping_line :: string where
  "ping_line = '':alice!al@host PRIVMSG #general :!ping''"






section \<open>Theorems\<close>

lemma History_add_below:
  "int (length (content h)) < limit h \<Longrightarrow>
     History_add h x = Inr (h\<lparr>content := content h @ [x]\<rparr>)"
  by (simp add: History_add_def)

lemma History_add_full:
  "int (length (content h)) = limit h \<Longrightarrow> 0 < limit h \<Longrightarrow>
     History_add h x = Inr (h\<lparr>content := tl (content h) @ [x]\<rparr>)"
  by (cases "content h") (auto simp: History_add_def)

lemma History_add_all_window:
  assumes "0 < limit h" and "int (length (content h)) \<le> limit h"
  shows "\<exists>h'. History_add_all h xs = Inr h' \<and> limit h' = limit h \<and>
           content h' = drop (length (content h @ xs) - nat (limit h)) (content h @ xs)"
  using assms
proof (induction xs arbitrary: h)
  case Nil
  then show ?case by simp
next
  case (Cons x xs)
  show ?case
  proof (cases "int (length (content h)) = limit h")
    case True
    let ?h = "h\<lparr>content := tl (content h) @ [x]\<rparr>"
    from True Cons.prems have ne: "content h \<noteq> []" by auto
    have step: "History_add h x = Inr ?h"
      using True Cons.prems by (simp add: History_add_full)
    have len: "int (length (content ?h)) \<le> limit ?h"
      using True ne by (cases "content h") auto
    from Cons.IH [of ?h] Cons.prems len
    obtain h' where h': "History_add_all ?h xs = Inr h'" "limit h' = limit h"
      "content h' = drop (length (content ?h @ xs) - nat (limit h)) (content ?h @ xs)"
      by auto
    have "drop (length (content ?h @ xs) - nat (limit h)) (content ?h @ xs)
          = drop (length (content h @ x # xs) - nat (limit h)) (content h @ x # xs)"
      using True ne by (cases "content h") (auto simp: drop_Cons' nat_eq_iff)
    with h' step show ?thesis by simp
  next
    case False
    let ?h = "h\<lparr>content := content h @ [x]\<rparr>"
    from False Cons.prems have lt: "int (length (content h)) < limit h" by simp
    have step: "History_add h x = Inr ?h"
      using lt by (simp add: History_add_below)
    have len: "int (length (content ?h)) \<le> limit ?h"
      using lt by simp
    from Cons.IH [of ?h] Cons.prems len
    obtain h' where h': "History_add_all ?h xs = Inr h'" "limit h' = limit h"
      "content h' = drop (length (content ?h @ xs) - nat (limit h)) (content ?h @ xs)"
      by auto
    with step show ?thesis by simp
  qed
qed

subsection \<open>Argument coercion\<close>

lemma check_slot_spec:
  assumes "int (length types) - int (length dflts) \<le> int (length tokens)" "i < length types"
  shows "opt_of_slot (check_slot dflts (int (length types) - int (length dflts)) tokens (i, types ! i))
         = spec_position types dflts tokens i"
  using assms
  by (auto simp: check_slot_def spec_position_def convert_def opt_of_slot_def Let_def split: option.splits)

lemma map_enumerate_nth:
  "map g (enumerate 0 xs) = map (\<lambda>i. g (i, xs ! i)) [0..<length xs]"
  by (rule nth_equalityI) (simp_all add: nth_enumerate_eq)

lemma the_val_map:
  "WrongArg \<notin> set ss \<Longrightarrow> map the_val ss = map the (map opt_of_slot ss)"
  by (induction ss) (auto simp: opt_of_slot_def split: slot.splits)

lemma check_args_refines:
  "check_args f tokens = spec_coerce (map snd (annotations f)) (defaults f) tokens"
proof (cases "annotations f = []")
  case True
  then show ?thesis by (simp add: check_args_def spec_coerce_def)
next
  case False
  define ts where "ts = map snd (annotations f)"
  define req where "req = int (length ts) - int (length (defaults f))"
  show ?thesis
  proof (cases "int (length tokens) < req")
    case True
    with False show ?thesis
      by (simp add: check_args_def spec_coerce_def Let_def req_def ts_def)
  next
    case ge: False
    define slots where "slots = map (check_slot (defaults f) req tokens) (enumerate 0 ts)"
    define r where "r = map (spec_position ts (defaults f) tokens) [0..<length ts]"
    have ca: "check_args f tokens =
        (if WrongArg \<in> set slots then None else Some (map the_val slots))"
      using False ge unfolding slots_def req_def ts_def
      by (simp add: check_args_def Let_def)
    have sc: "spec_coerce ts (defaults f) tokens =
        (if None \<in> set r then None else Some (map the r))"
      using ge unfolding r_def req_def
      by (simp add: spec_coerce_def Let_def)
    have eq: "map opt_of_slot slots = r"
      unfolding slots_def r_def map_enumerate_nth req_def using ge
      by (simp add: check_slot_spec req_def)
    have w: "(WrongArg \<in> set slots) = (None \<in> set r)"
      unfolding eq [symmetric] by (force simp: opt_of_slot_def split: slot.splits)
    have v: "WrongArg \<notin> set slots \<Longrightarrow> map the_val slots = map the r"
      unfolding eq [symmetric] by (rule the_val_map)
    show ?thesis
      unfolding ca ts_def [symmetric] sc using w v by simp
  qed
qed

lemma spec_position_surplus:
  "i < length tokens \<Longrightarrow>
     spec_position types dflts (tokens @ extra) i = spec_position types dflts tokens i"
  by (simp add: spec_position_def nth_append)

lemma check_args_surplus: 
  assumes "length (annotations f) \<le> length tokens"
  shows "check_args f (tokens @ extra) = check_args f tokens"
proof -
  have "map (spec_position (map snd (annotations f)) (defaults f) (tokens @ extra)) [0..<length (annotations f)]
      = map (spec_position (map snd (annotations f)) (defaults f) tokens) [0..<length (annotations f)]"
    using assms by (simp add: spec_position_surplus)
  then show ?thesis
    using assms unfolding check_args_refines spec_coerce_def 
    by (simp add: Let_def)
qed

subsection \<open>History\<close>

text \<open>
  C5. A History built with a capacity argument whose stored limit \<open>N\<close> is positive accepts
  every insertion; after inserting the elements \<open>xs\<close> it holds the last \<open>N\<close> of them in
  insertion order (all of them while fewer than \<open>N\<close> were inserted, and \<open>drop k xs\<close> after
  \<open>N + k\<close> insertions), its length never exceeds \<open>N\<close>, and an insertion at capacity drops
  the oldest element and appends the new one.
\<close>

theorem History_keeps_last_N:
  fixes xs :: "'a list"
  assumes "limit (History_init n :: 'a History) = N" and "0 < N"
  shows "\<exists>h. History_add_all (History_init n) xs = Inr h \<and>
           int (length (content h)) \<le> N \<and>
           content h = drop (length xs - nat N) xs \<and>
           (\<forall>k. length xs = nat N + k \<longrightarrow> content h = drop k xs) \<and>
           (\<forall>x. int (length (content h)) = N \<longrightarrow>
                History_add h x = Inr (h\<lparr>content := tl (content h) @ [x]\<rparr>))"
proof -
  let ?h0 = "History_init n :: 'a History"
  have c0: "content ?h0 = []" by (simp add: History_init_def)
  from History_add_all_window [of ?h0 xs] assms c0
  obtain h where h: "History_add_all ?h0 xs = Inr h" "limit h = N"
    "content h = drop (length xs - nat N) xs"
    by auto
  have "int (length (content h)) \<le> N"
    using h(3) assms(2) by auto
  moreover have "\<forall>k. length xs = nat N + k \<longrightarrow> content h = drop k xs"
    using h(3) by auto
  moreover have "\<forall>x. int (length (content h)) = N \<longrightarrow>
      History_add h x = Inr (h\<lparr>content := tl (content h) @ [x]\<rparr>)"
    using h(2) assms(2) by (auto simp: History_add_full)
  ultimately show ?thesis using h by blast
qed

theorem History_keeps_last_N_witness:
  "limit (History_init 2 :: nat History) = 2 \<and> (0::int) < 2 \<and>
   (\<exists>h. History_add_all (History_init 2) [5, 6, 7 :: nat] = Inr h \<and> content h = [6, 7])"
  using History_keeps_last_N [of 2 2 "[5, 6, 7 :: nat]"]
  by (auto simp: History_init_def)

subsection \<open>Argument coercion: the claim\<close>

lemma spec_position_None:
  "spec_position types dflts tokens i = None \<longleftrightarrow>
     (i < length tokens \<and> (types ! i) (tokens ! i) = None \<and>
      int i < int (length types) - int (length dflts))"
  by (auto simp: spec_position_def Let_def split: option.splits)

lemma spec_position_the:
  "spec_position types dflts tokens i \<noteq> None \<Longrightarrow>
   the (spec_position types dflts tokens i) =
     (if i < length tokens
      then (case (types ! i) (tokens ! i) of
              Some v \<Rightarrow> v
            | None \<Rightarrow> dflts ! nat (int i - (int (length types) - int (length dflts))))
      else dflts ! nat (int i - (int (length types) - int (length dflts))))"
  by (auto simp: spec_position_def Let_def split: option.splits)

lemma spec_coerce_cases:
  assumes "int (length types) - int (length dflts) \<le> int (length tokens)"
  shows "(case spec_coerce types dflts tokens of
            None \<Rightarrow> \<exists>i < length types. i < length tokens \<and> (types ! i) (tokens ! i) = None
                        \<and> int i < int (length types) - int (length dflts)
          | Some vs \<Rightarrow> length vs = length types \<and>
              (\<forall>i < length types.
                 vs ! i = (if i < length tokens
                           then (case (types ! i) (tokens ! i) of
                                   Some v \<Rightarrow> v
                                 | None \<Rightarrow> dflts ! nat (int i - (int (length types) - int (length dflts))))
                           else dflts ! nat (int i - (int (length types) - int (length dflts))))))"
proof (cases "None \<in> set (map (spec_position types dflts tokens) [0..<length types])")
  case True
  then obtain i where "i < length types" "spec_position types dflts tokens i = None"
    by auto
  then have "\<exists>i < length types. i < length tokens \<and> (types ! i) (tokens ! i) = None
                        \<and> int i < int (length types) - int (length dflts)"
    unfolding spec_position_None by blast
  moreover have "spec_coerce types dflts tokens = None"
    using True assms by (simp add: spec_coerce_def Let_def)
  ultimately show ?thesis by simp
next
  case False
  then have nn: "\<And>i. i < length types \<Longrightarrow> spec_position types dflts tokens i \<noteq> None"
    by force
  have "spec_coerce types dflts tokens =
      Some (map the (map (spec_position types dflts tokens) [0..<length types]))"
    using False assms by (simp add: spec_coerce_def Let_def)
  then show ?thesis
    using nn by (simp add: spec_position_the del: map_map)
qed

lemmas int_eval = check_args_def check_slot_def enumerate_eq_zip convert_def py_int_def
  py_str_def int_space_def digits_value_def digit_val_def isdigit_def Let_def

text \<open>
  C2. \<open>check_args\<close> computes the coercion of the specification: with \<open>required\<close> the
  number of declared parameters minus the number of defaults, it rejects when fewer tokens
  than \<open>required\<close> are supplied; otherwise each position holds its token converted to the
  declared type, or the default of that position when the conversion fails or no token is
  there, and the call is rejected exactly when some conversion fails at a position without
  default; tokens beyond the declared parameters change nothing. For types (int, str) with
  the one default "hi", tokens ("5",) give [5, "hi"] and no token gives rejection; for type
  (int,) without default, token ("abc",) gives rejection.
\<close>

theorem check_args_coercion:
  assumes "types = map snd (annotations f)"
    and "required = int (length (annotations f)) - int (length (defaults f))"
  shows "check_args f tokens = spec_coerce types (defaults f) tokens \<and>
    (int (length tokens) < required \<and> annotations f \<noteq> [] \<longrightarrow> check_args f tokens = None) \<and>
    (required \<le> int (length tokens) \<longrightarrow>
           (case check_args f tokens of
              None \<Rightarrow> \<exists>i < length types. i < length tokens \<and> (types ! i) (tokens ! i) = None
                        \<and> int i < required
            | Some vs \<Rightarrow> length vs = length types \<and>
                (\<forall>i < length types.
                   vs ! i = (if i < length tokens
                             then (case (types ! i) (tokens ! i) of
                                     Some v \<Rightarrow> v
                                   | None \<Rightarrow> defaults f ! nat (int i - required))
                             else defaults f ! nat (int i - required))))) \<and>
    (length (annotations f) \<le> length tokens \<longrightarrow>
           check_args f (tokens @ surplus) = check_args f tokens) \<and>
    check_args \<lparr>annotations = [(''x'', py_int), (''y'', py_str)],
                      defaults = [StrV ''hi''], body = b\<rparr> [''5'']
           = Some [IntV 5, StrV ''hi''] \<and>
    check_args \<lparr>annotations = [(''x'', py_int), (''y'', py_str)],
                      defaults = [StrV ''hi''], body = b\<rparr> [] = None \<and>
    check_args \<lparr>annotations = [(''x'', py_int)], defaults = [], body = b\<rparr> [''abc'']
           = None"
proof -
  have r: "check_args f tokens = spec_coerce types (defaults f) tokens"
    unfolding assms by (rule check_args_refines)
  have a: "int (length tokens) < required \<and> annotations f \<noteq> [] \<longrightarrow> check_args f tokens = None"
    unfolding assms by (simp add: check_args_def Let_def)
  have req: "required = int (length types) - int (length (defaults f))"
    unfolding assms by simp
  have c: "required \<le> int (length tokens) \<longrightarrow>
           (case check_args f tokens of
              None \<Rightarrow> \<exists>i < length types. i < length tokens \<and> (types ! i) (tokens ! i) = None
                        \<and> int i < required
            | Some vs \<Rightarrow> length vs = length types \<and>
                (\<forall>i < length types.
                   vs ! i = (if i < length tokens
                             then (case (types ! i) (tokens ! i) of
                                     Some v \<Rightarrow> v
                                   | None \<Rightarrow> defaults f ! nat (int i - required))
                             else defaults f ! nat (int i - required))))"
    unfolding r req using spec_coerce_cases [of types "defaults f" tokens] by blast
  have s: "length (annotations f) \<le> length tokens \<longrightarrow>
           check_args f (tokens @ surplus) = check_args f tokens"
    by (simp add: check_args_surplus)
  have e1: "check_args \<lparr>annotations = [(''x'', py_int), (''y'', py_str)],
                      defaults = [StrV ''hi''], body = b\<rparr> [''5'']
           = Some [IntV 5, StrV ''hi'']"
    by (simp add: int_eval)
  have e2: "check_args \<lparr>annotations = [(''x'', py_int), (''y'', py_str)],
                      defaults = [StrV ''hi''], body = b\<rparr> [] = None"
    by (simp add: check_args_def)
  have e3: "check_args \<lparr>annotations = [(''x'', py_int)], defaults = [], body = b\<rparr> [''abc'']
           = None"
    by (simp add: int_eval)
  from r a c s e1 e2 e3 show ?thesis by blast
qed

theorem check_args_coercion_witness:
  "check_args \<lparr>annotations = [(''n'', py_int), (''s'', py_str)], defaults = [StrV ''d''],
                body = (\<lambda>m a. Inr [])\<rparr> [''x1'', ''t'', ''more'']
     = spec_coerce [py_int, py_str] [StrV ''d''] [''x1'', ''t'', ''more'']
   \<and> check_args \<lparr>annotations = [(''n'', py_int), (''s'', py_str)], defaults = [StrV ''d''],
                body = (\<lambda>m a. Inr [])\<rparr> [''x1'', ''t'', ''more''] = None
   \<and> check_args \<lparr>annotations = [(''n'', py_int), (''s'', py_str)], defaults = [StrV ''d''],
                body = (\<lambda>m a. Inr [])\<rparr> [''12''] = Some [IntV 12, StrV ''d'']"
  using check_args_coercion [of "[py_int, py_str]"
      "\<lparr>annotations = [(''n'', py_int), (''s'', py_str)], defaults = [StrV ''d''],
         body = (\<lambda>m a. Inr [])\<rparr>" 1 "[''x1'', ''t'', ''more'']" "[]" "\<lambda>m a. Inr []"]
  by (simp add: int_eval)

subsection \<open>Named rules\<close>

lemma command_event_iff:
  "command_event P al m \<longleftrightarrow>
     (\<exists>C \<in> set al. text_of m = P @ C \<or> (\<exists>rest. text_of m = P @ C @ '' '' @ rest))"
proof -
  have sw: "\<And>s p. startswith s p \<longleftrightarrow> (\<exists>rest. s = p @ rest)"
    unfolding startswith_def by (metis append_eq_conv_conj append_take_drop_id)
  show ?thesis
    unfolding command_event_def sw by (auto simp: image_iff)
qed

text \<open>
  C3 (amended). A Named rule with prefix \<open>P\<close>, name and aliases matches a text exactly when,
  for some \<open>C\<close> among the aliases and the name, the text is \<open>P + C\<close> or starts with
  \<open>P + C\<close> followed by a space. So \<open>P + C\<close> and \<open>P + C + " " + rest\<close> match for the name
  and for every alias; and for a rule without further alias, \<open>P + name\<close> followed at once by
  a character other than a space does not match, and a text that does not start with
  \<open>P + name\<close> does not match.
\<close>

theorem command_event_matches:
  "(command_event P (command_alias name alias) m \<longleftrightarrow>
      (\<exists>C \<in> set alias \<union> {name}.
          text_of m = P @ C \<or> (\<exists>rest. text_of m = P @ C @ '' '' @ rest))) \<and>
   (\<forall>C \<in> set alias \<union> {name}.
      command_event P (command_alias name alias) (m\<lparr>text_of := P @ C\<rparr>) \<and>
      command_event P (command_alias name alias) (m\<lparr>text_of := P @ C @ '' '' @ rest\<rparr>)) \<and>
   (x \<noteq> CHR '' '' \<longrightarrow>
      \<not> command_event P (command_alias name []) (m\<lparr>text_of := P @ name @ x # rest\<rparr>)) \<and>
   (\<not> startswith t (P @ name) \<longrightarrow>
      \<not> command_event P (command_alias name []) (m\<lparr>text_of := t\<rparr>))"
proof -
  have al: "set (command_alias name alias) = set alias \<union> {name}"
    by (auto simp: command_alias_def)
  have al0: "set (command_alias name []) = {name}"
    by (simp add: command_alias_def)
  have sw: "\<And>s p. startswith s p \<longleftrightarrow> (\<exists>rest. s = p @ rest)"
    unfolding startswith_def by (metis append_eq_conv_conj append_take_drop_id)
  have 1: "command_event P (command_alias name alias) m \<longleftrightarrow>
      (\<exists>C \<in> set alias \<union> {name}.
          text_of m = P @ C \<or> (\<exists>rest. text_of m = P @ C @ '' '' @ rest))"
    unfolding command_event_iff al ..
  have 2: "\<forall>C \<in> set alias \<union> {name}.
      command_event P (command_alias name alias) (m\<lparr>text_of := P @ C\<rparr>) \<and>
      command_event P (command_alias name alias) (m\<lparr>text_of := P @ C @ '' '' @ rest\<rparr>)"
    unfolding command_event_iff al by auto
  have 3: "x \<noteq> CHR '' '' \<longrightarrow>
      \<not> command_event P (command_alias name []) (m\<lparr>text_of := P @ name @ x # rest\<rparr>)"
    unfolding command_event_iff al0 by auto
  have 4: "\<not> startswith t (P @ name) \<longrightarrow>
      \<not> command_event P (command_alias name []) (m\<lparr>text_of := t\<rparr>)"
    unfolding command_event_iff al0 sw by auto
  from 1 2 3 4 show ?thesis by blast
qed

theorem command_event_matches_witness:
  "command_event ''!'' (command_alias ''ping'' [''p''])
      \<lparr>author = ''alice'', to = ''#room'', text_of = ''!p now''\<rparr> \<and>
   \<not> command_event ''!'' (command_alias ''ping'' [])
      \<lparr>author = ''alice'', to = ''#room'', text_of = ''!pingxnow''\<rparr> \<and>
   \<not> command_event ''!'' (command_alias ''ping'' [])
      \<lparr>author = ''alice'', to = ''#room'', text_of = ''hello''\<rparr>"
  using command_event_matches [of "''!''" "''ping''" "[''p'']"
      "\<lparr>author = ''alice'', to = ''#room'', text_of = ''!p now''\<rparr>" "''now''"
      "CHR ''x''" "''hello''"]
  by (simp add: startswith_def)

text \<open>
  C3 as stated fails for a rule with an alias: the rule named "ping" with alias "p" and
  prefix "!" matches the text "!p", which does not start with "!ping".
\<close>

theorem command_event_other_alias_counterexample:
  "command_event ''!'' (command_alias ''ping'' [''p''])
      \<lparr>author = ''alice'', to = ''#room'', text_of = ''!p''\<rparr> \<and>
   \<not> startswith ''!p'' (''!'' @ ''ping'')"
  by (simp add: command_event_def command_alias_def startswith_def)

subsection \<open>The reader thread\<close>

lemma replace_absent:
  "old \<noteq> [] \<Longrightarrow> \<not> contains s old \<Longrightarrow> replace s old new = s"
proof (induction s old new rule: replace.induct)
  case (1 s old new)
  show ?case
  proof (cases s)
    case Nil
    then show ?thesis using "1.prems" by (simp add: replace.simps)
  next
    case (Cons c cs)
    with "1.prems" have ns: "\<not> startswith s old" and nc: "\<not> contains cs old" by auto
    from "1.IH"(3) [OF _ "1.prems"(1) ns "1.prems"(1)] Cons nc
    have "replace cs old new = cs" by simp
    then show ?thesis
      using Cons ns "1.prems"(1) by (subst replace.simps) simp
  qed
qed

lemma replace_at_start:
  "old \<noteq> [] \<Longrightarrow> startswith s old \<Longrightarrow>
     replace s old new = new @ replace (drop (length old) s) old new"
  by (subst replace.simps) (auto simp: startswith_def)

lemma handle_msg_ping:
  "startswith msg ''PING'' \<Longrightarrow>
     handle_msg irc msg =
       irc\<lparr>socket_out := socket_out irc @ [replace msg ''PING'' ''PONG'' @ CRLF]\<rparr>"
  by (simp add: handle_msg_def IRC_send_def)

lemma handle_msg_other:
  "\<not> startswith msg ''PING'' \<Longrightarrow> msg \<noteq> [] \<Longrightarrow>
     handle_msg irc msg = irc\<lparr>inbox := inbox irc @ [msg]\<rparr>"
  by (simp add: handle_msg_def)

lemma handle_msg_empty: "handle_msg irc [] = irc"
  by (simp add: handle_msg_def startswith_def)

lemma foldl_handle_msg:
  "socket_out (foldl handle_msg irc ls) =
     socket_out irc @ map (\<lambda>l. replace l ''PING'' ''PONG'' @ CRLF)
                        (filter (\<lambda>l. startswith l ''PING'') ls) \<and>
   inbox (foldl handle_msg irc ls) =
     inbox irc @ filter (\<lambda>l. \<not> startswith l ''PING'' \<and> l \<noteq> []) ls \<and>
   connected (foldl handle_msg irc ls) = connected irc"
proof (induction ls arbitrary: irc)
  case Nil
  then show ?case by simp
next
  case (Cons l ls)
  have ne: "\<not> startswith [] ''PING''"
    by (simp add: startswith_def)
  consider (ping) "startswith l ''PING''" | (empty) "l = []"
    | (other) "\<not> startswith l ''PING''" "l \<noteq> []"
    by blast
  then show ?case
  proof cases
    case ping
    then show ?thesis
      using Cons.IH [of "handle_msg irc l"] by (simp add: handle_msg_ping)
  next
    case empty
    then show ?thesis
      using Cons.IH [of irc] ne by (simp add: handle_msg_empty)
  next
    case other
    then show ?thesis
      using Cons.IH [of "handle_msg irc l"] by (simp add: handle_msg_other)
  qed
qed

text \<open>
  The reader, line by line: a line that starts with "PING" is answered at once, on the same
  connection, by \<open>msg.replace("PING", "PONG")\<close> with the line terminator, and is not
  enqueued; every other non-empty line is appended to the inbound queue. The answer is
  "PONG" followed by the rest of the PING line only when that rest holds no further "PING":
  \<open>replace\<close> rewrites every occurrence. Over a whole received chunk, the lines sent are
  the answers to its PING lines, in order, and the lines enqueued are its other non-empty
  lines, in order.
\<close>

lemma handle_msg_cases:
  "(startswith msg ''PING'' \<longrightarrow>
      handle_msg irc msg =
        irc\<lparr>socket_out := socket_out irc @ [replace msg ''PING'' ''PONG'' @ CRLF]\<rparr> \<and>
      inbox (handle_msg irc msg) = inbox irc \<and>
      startswith (replace msg ''PING'' ''PONG'') ''PONG'' \<and>
      (\<not> contains (drop 4 msg) ''PING'' \<longrightarrow>
         replace msg ''PING'' ''PONG'' = ''PONG'' @ drop 4 msg)) \<and>
   (\<not> startswith msg ''PING'' \<and> msg \<noteq> [] \<longrightarrow>
      handle_msg irc msg = irc\<lparr>inbox := inbox irc @ [msg]\<rparr>) \<and>
   socket_out (handle_data irc data) =
     socket_out irc @ map (\<lambda>l. replace l ''PING'' ''PONG'' @ CRLF)
                        (filter (\<lambda>l. startswith l ''PING'') (split data CRLF)) \<and>
   inbox (handle_data irc data) =
     inbox irc @ filter (\<lambda>l. \<not> startswith l ''PING'' \<and> l \<noteq> []) (split data CRLF)"
proof -
  have a: "startswith msg ''PING'' \<longrightarrow>
      handle_msg irc msg =
        irc\<lparr>socket_out := socket_out irc @ [replace msg ''PING'' ''PONG'' @ CRLF]\<rparr> \<and>
      inbox (handle_msg irc msg) = inbox irc \<and>
      startswith (replace msg ''PING'' ''PONG'') ''PONG'' \<and>
      (\<not> contains (drop 4 msg) ''PING'' \<longrightarrow>
         replace msg ''PING'' ''PONG'' = ''PONG'' @ drop 4 msg)"
  proof
    assume p: "startswith msg ''PING''"
    have l4: "length ''PING'' = 4" by simp
    have r: "replace msg ''PING'' ''PONG'' = ''PONG'' @ replace (drop 4 msg) ''PING'' ''PONG''"
      using replace_at_start [of "''PING''" msg "''PONG''"] p unfolding l4 by simp
    have "startswith (replace msg ''PING'' ''PONG'') ''PONG''"
      unfolding r by (simp add: startswith_def)
    moreover have "\<not> contains (drop 4 msg) ''PING'' \<longrightarrow>
         replace msg ''PING'' ''PONG'' = ''PONG'' @ drop 4 msg"
      unfolding r by (simp add: replace_absent)
    ultimately show "handle_msg irc msg =
        irc\<lparr>socket_out := socket_out irc @ [replace msg ''PING'' ''PONG'' @ CRLF]\<rparr> \<and>
      inbox (handle_msg irc msg) = inbox irc \<and>
      startswith (replace msg ''PING'' ''PONG'') ''PONG'' \<and>
      (\<not> contains (drop 4 msg) ''PING'' \<longrightarrow>
         replace msg ''PING'' ''PONG'' = ''PONG'' @ drop 4 msg)"
      using p by (simp add: handle_msg_ping)
  qed
  have b: "\<not> startswith msg ''PING'' \<and> msg \<noteq> [] \<longrightarrow>
      handle_msg irc msg = irc\<lparr>inbox := inbox irc @ [msg]\<rparr>"
    by (simp add: handle_msg_other)
  from a b foldl_handle_msg [of irc "split data CRLF"] show ?thesis
    unfolding handle_data_def by blast
qed

text \<open>
  C8 (the code at a concrete input). The server sends the line "PING :PING123". The reader
  does not enqueue it and answers at once, but the answer is "PONG :PONG123": the token
  of the PING is rewritten too, so the line sent is not the PONG that corresponds to the
  PING received, which is "PONG :PING123".
\<close>

theorem handle_ping_rewrites_token:
  "handle_msg IRC_init ''PING :PING123'' =
     IRC_init\<lparr>socket_out := [''PONG :PONG123'' @ CRLF]\<rparr> \<and>
   socket_out (handle_data IRC_init (''PING :PING123'' @ CRLF)) = [''PONG :PONG123'' @ CRLF] \<and>
   inbox (handle_data IRC_init (''PING :PING123'' @ CRLF)) = [] \<and>
   socket_out (handle_msg IRC_init ''PING :PING123'') \<noteq> [''PONG :PING123'' @ CRLF]"
  by (simp add: handle_data_def handle_msg_def IRC_send_def IRC_init_def startswith_def
        replace.simps split_def split_from.simps CRLF_def)

subsection \<open>The handshake\<close>

text \<open>
  With an \<open>auth\<close> tuple the handshake never reaches the login confirmation: either the
  login prompt never arrives, or reading \<open>username\<close> raises NameError. No AUTH line is
  sent and \<open>connected\<close> keeps its value.
\<close>

lemma connexion_auth_never_connects:
  assumes "auth \<noteq> []"
  shows "fst (connexion irc nick auth) \<noteq> Done \<and>
         connected (snd (connexion irc nick auth)) = connected irc \<and>
         socket_out (snd (connexion irc nick auth)) =
           socket_out irc @ [(''USER '' @ nick @ '' * * :'' @ nick) @ CRLF,
                             (''NICK '' @ nick) @ CRLF]"
  using assms
  by (simp add: connexion_def Let_def waitfor_def IRC_send_def lookup_name_def
        connexion_scope_def split: option.splits prod.splits)

text \<open>
  C7 (the code at a concrete input). The auth pair ("bot", "secret") is supplied and the
  server sends the login prompt and then the confirmation: after USER and NICK the prompt
  is consumed, then NameError is raised; the credentials are not sent, the confirmation is
  still in the queue, and \<open>connected\<close> is false.
\<close>

theorem connexion_auth_NameError:
  "connexion (IRC_init\<lparr>inbox := ['':srv NOTICE bot :please /AUTH'',
                                    '':srv 900 bot :You are now logged in'']\<rparr>)
      ''bot'' [''bot'', ''secret'']
   = (Raised NameError,
      \<lparr>connected = False,
       socket_out = [''USER bot * * :bot'' @ CRLF, ''NICK bot'' @ CRLF],
       inbox = ['':srv 900 bot :You are now logged in'']\<rparr>)"
  by (simp add: connexion_def Let_def waitfor_def IRC_send_def lookup_name_def
        connexion_scope_def IRC_init_def startswith_def)

text \<open>Without \<open>auth\<close> the handshake waits for the confirmation and then connects.\<close>

lemma connexion_no_auth_logs_in:
  "connexion (IRC_init\<lparr>inbox := ['':srv 900 bot :You are now logged in'', ''x'']\<rparr>) ''bot'' []
   = (Done,
      \<lparr>connected = True,
       socket_out = [''USER bot * * :bot'' @ CRLF, ''NICK bot'' @ CRLF],
       inbox = [''x'']\<rparr>)"
  by (simp add: connexion_def connexion_login_def Let_def waitfor_def IRC_send_def
        IRC_init_def startswith_def)

subsection \<open>Matching the patterns\<close>

lemma concat_all_Nil: "(\<And>x. x \<in> set xs \<Longrightarrow> f x = []) \<Longrightarrow> concat (map f xs) = []"
  by (induction xs) auto

lemma rmatch_Group_PlusC:
  "rmatch (Group name (PlusC P)) s g =
     map (\<lambda>k. (drop k s, g(name \<mapsto> take k s))) (rev [1..<Suc (length (takeWhile P s))])"
proof -
  have "length (takeWhile P s) \<le> length s" by (rule length_takeWhile_le)
  then show ?thesis by (auto simp: min_def)
qed

lemma takeWhile_nth_hd:
  assumes "k < length (takeWhile P s)"
  shows "drop k s \<noteq> [] \<and> P (hd (drop k s))"
proof -
  have le: "length (takeWhile P s) \<le> length s" by (rule length_takeWhile_le)
  with assms have k: "k < length s" by simp
  have "takeWhile P s ! k = s ! k" using assms by (rule takeWhile_nth)
  moreover have "P (takeWhile P s ! k)"
    using assms by (meson nth_mem set_takeWhileD)
  ultimately show ?thesis using k by (simp add: hd_drop_conv_nth)
qed

lemma rmatch_Seq_Group_PlusC:
  assumes fail: "\<And>t g'. t \<noteq> [] \<Longrightarrow> P (hd t) \<Longrightarrow> rmatch r t g' = []"
  shows "rmatch (Seq (Group name (PlusC P)) r) s g =
     (if takeWhile P s = [] then []
      else rmatch r (dropWhile P s) (g(name \<mapsto> takeWhile P s)))"
proof (cases "takeWhile P s = []")
  case True
  then show ?thesis by (simp add: rmatch_Group_PlusC del: rmatch.simps(2,7))
next
  case False
  define n where "n = length (takeWhile P s)"
  have n: "0 < n" using False by (simp add: n_def)
  have up: "rev [1..<Suc n] = n # rev [1..<n]" using n by simp
  have tl0: "concat (map (\<lambda>k. rmatch r (drop k s) (g(name \<mapsto> take k s))) (rev [1..<n])) = []"
  proof (rule concat_all_Nil)
    fix k assume "k \<in> set (rev [1..<n])"
    then have "k < length (takeWhile P s)" by (simp add: n_def)
    from takeWhile_nth_hd [OF this]
    show "rmatch r (drop k s) (g(name \<mapsto> take k s)) = []"
      by (simp add: fail)
  qed
  have dn: "drop n s = dropWhile P s" "take n s = takeWhile P s"
    unfolding n_def
    by (rule dropWhile_eq_drop [symmetric], rule takeWhile_eq_take [symmetric])
  have "rmatch (Seq (Group name (PlusC P)) r) s g =
      concat (map (\<lambda>k. rmatch r (drop k s) (g(name \<mapsto> take k s))) (rev [1..<Suc n]))"
    unfolding rmatch.simps(5) rmatch_Group_PlusC n_def by (simp add: comp_def)
  also have "\<dots> = rmatch r (drop n s) (g(name \<mapsto> take n s))"
    unfolding up using tl0 by simp
  finally show ?thesis using False dn by simp
qed

lemma concat_map_Seq:
  "concat (map (\<lambda>(x, y). rmatch c x y) (concat (map (\<lambda>(x, y). rmatch b x y) xs))) =
   concat (map (\<lambda>(x, y). rmatch (Seq b c) x y) xs)"
  by (induction xs) auto

lemma rmatch_Seq_assoc:
  "rmatch (Seq (Seq a b) c) s g = rmatch (Seq a (Seq b c)) s g"
  unfolding rmatch.simps(5) [of "Seq a b"] rmatch.simps(5) [of a b] concat_map_Seq
  by simp

lemma rmatch_Seq_Lit:
  "length l = n \<Longrightarrow>
     rmatch (Seq (Lit l) r) s g = (if startswith s l then rmatch r (drop n s) g else [])"
  by auto

lemma rmatch_Seq_Opt:
  "rmatch (Seq (Opt a) r) s g = rmatch (Seq a r) s g @ rmatch r s g"
  by simp

declare rmatch.simps [simp del]

lemma author_char_not: "author_char c \<Longrightarrow> c \<noteq> CHR ''!'' \<and> c \<noteq> CHR '' ''"
  by (auto simp: author_char_def is_word_def)

lemma nonspace_not: "nonspace c \<Longrightarrow> c \<noteq> CHR '' ''"
  by (auto simp: nonspace_def isspace_def)

lemma startswith_Cons: "startswith s (c # p) \<longleftrightarrow> s \<noteq> [] \<and> hd s = c \<and> startswith (tl s) p"
  by (cases s) (auto simp: startswith_def)

lemma startswith_Nil [simp]: "startswith s []"
  by (simp add: startswith_def)

lemma rmatch_Group_PlusC_hd:
  "rmatch (Group name (PlusC P)) s g =
     (if takeWhile P s = [] then []
      else (dropWhile P s, g(name \<mapsto> takeWhile P s)) #
           map (\<lambda>k. (drop k s, g(name \<mapsto> take k s))) (rev [1..<length (takeWhile P s)]))"
proof (cases "takeWhile P s = []")
  case True
  then show ?thesis unfolding rmatch_Group_PlusC by simp
next
  case False
  define n where "n = length (takeWhile P s)"
  have n: "0 < n" using False by (simp add: n_def)
  have up: "rev [1..<Suc n] = n # rev [1..<n]" using n by simp
  have dn: "drop n s = dropWhile P s" "take n s = takeWhile P s"
    unfolding n_def
    by (rule dropWhile_eq_drop [symmetric], rule takeWhile_eq_take [symmetric])
  show ?thesis
    unfolding rmatch_Group_PlusC n_def [symmetric] up using False dn by simp
qed

lemma Message_pattern_parts:
  "Message_pattern = Seq (Lit '':'') (Seq (Group ''author'' (PlusC author_char)) host_part)"
  by (simp add: Message_pattern_def host_part_def to_part_def text_part_def)

lemma Lit_colon:
  "rmatch (Seq (Lit '':'') r) s g = (if startswith s '':'' then rmatch r (drop 1 s) g else [])"
  by (rule rmatch_Seq_Lit) simp

lemma Lit_bang:
  "rmatch (Seq (Lit ''!'') r) s g = (if startswith s ''!'' then rmatch r (drop 1 s) g else [])"
  by (rule rmatch_Seq_Lit) simp

lemma Lit_PRIVMSG:
  "rmatch (Seq (Lit '' PRIVMSG '') r) s g =
     (if startswith s '' PRIVMSG '' then rmatch r (drop 9 s) g else [])"
  by (rule rmatch_Seq_Lit) simp

lemma Lit_space_colon:
  "rmatch (Seq (Lit '' :'') r) s g = (if startswith s '' :'' then rmatch r (drop 2 s) g else [])"
  by (rule rmatch_Seq_Lit) simp

lemma text_part_fail: "t \<noteq> [] \<Longrightarrow> nonspace (hd t) \<Longrightarrow> rmatch text_part t g = []"
  unfolding text_part_def Lit_space_colon
  by (auto simp: startswith_Cons dest: nonspace_not)

lemma to_part_fail: "t \<noteq> [] \<Longrightarrow> hd t \<noteq> CHR '' '' \<Longrightarrow> rmatch to_part t g = []"
  unfolding to_part_def Lit_PRIVMSG
  by (auto simp: startswith_Cons)

lemma to_part_eq:
  "rmatch to_part s g =
     (if startswith s '' PRIVMSG '' \<and> takeWhile nonspace (drop 9 s) \<noteq> []
      then rmatch text_part (dropWhile nonspace (drop 9 s))
             (g(''to'' \<mapsto> takeWhile nonspace (drop 9 s)))
      else [])"
  unfolding to_part_def Lit_PRIVMSG
  by (simp add: rmatch_Seq_Group_PlusC [of nonspace text_part "''to''", OF text_part_fail])

lemma host_part_eq:
  "rmatch host_part s g =
     (if startswith s ''!''
      then (if takeWhile nonspace (drop 1 s) = [] then []
            else rmatch to_part (dropWhile nonspace (drop 1 s))
                   (g(''host'' \<mapsto> takeWhile nonspace (drop 1 s))))
      else rmatch to_part s g)"
proof -
  have fail: "\<And>t g'. t \<noteq> [] \<Longrightarrow> nonspace (hd t) \<Longrightarrow> rmatch to_part t g' = []"
    using to_part_fail nonspace_not by blast
  have a: "rmatch (Seq (Seq (Lit ''!'') (Group ''host'' (PlusC nonspace))) to_part) s g =
      (if startswith s ''!''
       then (if takeWhile nonspace (drop 1 s) = [] then []
             else rmatch to_part (dropWhile nonspace (drop 1 s))
                    (g(''host'' \<mapsto> takeWhile nonspace (drop 1 s))))
       else [])"
    unfolding rmatch_Seq_assoc Lit_bang
    by (simp add: rmatch_Seq_Group_PlusC [of nonspace to_part "''host''", OF fail])
  have b: "startswith s ''!'' \<Longrightarrow> rmatch to_part s g = []"
    by (rule to_part_fail) (auto simp: startswith_Cons)
  show ?thesis
    unfolding host_part_def rmatch_Seq_Opt a using b
    by (simp add: host_part_def [symmetric])
qed

lemma host_part_fail: "t \<noteq> [] \<Longrightarrow> author_char (hd t) \<Longrightarrow> rmatch host_part t g = []"
  unfolding host_part_eq
  by (auto simp: startswith_Cons to_part_fail dest: author_char_not)

lemma Message_pattern_eq:
  "rmatch Message_pattern s g =
     (if startswith s '':'' \<and> takeWhile author_char (drop 1 s) \<noteq> []
      then rmatch host_part (dropWhile author_char (drop 1 s))
             (g(''author'' \<mapsto> takeWhile author_char (drop 1 s)))
      else [])"
  unfolding Message_pattern_parts Lit_colon
  by (simp add: rmatch_Seq_Group_PlusC [of author_char host_part "''author''",
        OF host_part_fail])

lemma text_part_eq:
  "rmatch text_part s g =
     (if startswith s '' :'' \<and> takeWhile dot (drop 2 s) \<noteq> []
      then (dropWhile dot (drop 2 s), g(''text'' \<mapsto> takeWhile dot (drop 2 s))) #
           map (\<lambda>k. (drop k (drop 2 s), g(''text'' \<mapsto> take k (drop 2 s))))
               (rev [1..<length (takeWhile dot (drop 2 s))])
      else [])"
  unfolding text_part_def Lit_space_colon rmatch_Group_PlusC_hd
  by simp

lemma Message_search_shape:
  "(case privmsg_shape raw of
      None \<Rightarrow> Message_search raw = None
    | Some (a, h, t, x) \<Rightarrow>
        (\<exists>m g. Message_search raw = Some (m, g) \<and> g ''author'' = Some a \<and> g ''host'' = h \<and>
               g ''to'' = Some t \<and> g ''text'' = Some x))"
  unfolding Message_search_def re_match_def Message_pattern_eq host_part_eq to_part_eq
    text_part_eq privmsg_shape_def
  by (simp add: Let_def)

subsection \<open>Message\<close>

lemma startswith_append: "startswith s p \<Longrightarrow> length p = n \<Longrightarrow> s = p @ drop n s"
  unfolding startswith_def by (metis append_take_drop_id)

lemma privmsg_shape_decompose:
  assumes "privmsg_shape raw = Some (a, h, t, x)"
  shows "\<exists>rest. raw = '':'' @ a @ (case h of None \<Rightarrow> [] | Some h' \<Rightarrow> ''!'' @ h')
                   @ '' PRIVMSG '' @ t @ '' :'' @ x @ rest
               \<and> (rest = [] \<or> hd rest = CHR 0x0A)"
proof -
  define r1 where "r1 = drop 1 raw"
  define r2 where "r2 = dropWhile author_char r1"
  define r3 where "r3 = (if startswith r2 ''!'' then dropWhile nonspace (drop 1 r2) else r2)"
  define r4 where "r4 = drop 9 r3"
  define r5 where "r5 = dropWhile nonspace r4"
  define r6 where "r6 = drop 2 r5"
  define a' where "a' = takeWhile author_char r1"
  define h' where "h' = (if startswith r2 ''!'' then Some (takeWhile nonspace (drop 1 r2)) else None)"
  define t' where "t' = takeWhile nonspace r4"
  define x' where "x' = takeWhile dot r6"
  have eq: "privmsg_shape raw =
     (if \<not> startswith raw '':'' then None
      else if a' = [] \<or> h' = Some [] \<or> \<not> startswith r3 '' PRIVMSG '' \<or> t' = []
              \<or> \<not> startswith r5 '' :'' \<or> x' = []
           then None else Some (a', h', t', x'))"
    unfolding privmsg_shape_def Let_def a'_def h'_def t'_def x'_def r6_def r5_def r4_def r3_def
      r2_def r1_def by (rule refl)
  from assms have c: "startswith raw '':''" "startswith r3 '' PRIVMSG ''" "startswith r5 '' :''"
    and a0: "a = a'" and h0: "h = h'" and t0: "t = t'" and x0: "x = x'"
    unfolding eq by (simp_all split: if_splits)
  have a: "a = takeWhile author_char r1" by (simp add: a0 a'_def)
  have h: "h = (if startswith r2 ''!'' then Some (takeWhile nonspace (drop 1 r2)) else None)"
    by (simp add: h0 h'_def)
  have t: "t = takeWhile nonspace r4" by (simp add: t0 t'_def)
  have x: "x = takeWhile dot r6" by (simp add: x0 x'_def)
  have 1: "raw = '':'' @ r1"
    unfolding r1_def by (rule startswith_append [OF c(1)]) simp
  have 2: "r1 = a @ r2" by (simp add: a r2_def)
  have 3: "r2 = (case h of None \<Rightarrow> [] | Some h' \<Rightarrow> ''!'' @ h') @ r3"
  proof (cases "startswith r2 ''!''")
    case True
    have "r2 = ''!'' @ drop 1 r2" by (rule startswith_append [OF True]) simp
    also have "drop 1 r2 = takeWhile nonspace (drop 1 r2) @ dropWhile nonspace (drop 1 r2)"
      by simp
    finally show ?thesis using True unfolding h r3_def by simp
  next
    case False
    then show ?thesis by (simp add: h r3_def)
  qed
  have 4: "r3 = '' PRIVMSG '' @ r4"
    unfolding r4_def by (rule startswith_append [OF c(2)]) simp
  have 5: "r4 = t @ r5" by (simp add: t r5_def)
  have 6: "r5 = '' :'' @ r6"
    unfolding r6_def by (rule startswith_append [OF c(3)]) simp
  have 7: "r6 = x @ dropWhile dot r6" by (simp add: x)
  have 8: "dropWhile dot r6 = [] \<or> hd (dropWhile dot r6) = CHR 0x0A"
    using hd_dropWhile [of dot r6] by (auto simp: dot_def)
  have "raw = '':'' @ a @ (case h of None \<Rightarrow> [] | Some h' \<Rightarrow> ''!'' @ h')
                   @ '' PRIVMSG '' @ t @ '' :'' @ x @ dropWhile dot r6"
    by (subst 1, subst 2, subst 3, subst 4, subst 5, subst 6, subst 7) simp
  with 8 show ?thesis by blast
qed

text \<open>
  C4. If \<open>re.search\<close> finds the pattern in the raw line, the groups author, to and text
  are all captured and the three fields of the Message are exactly these groups; if it
  does not, the three fields are the empty string. Construction always returns a Message.
  The search succeeds exactly on the lines of the PRIVMSG shape, and then the fields are
  the author, the destination and the text of the shape, unchanged: the line is
  \<open>:author[!host] PRIVMSG to :text\<close>, followed by nothing or by a newline and the rest.
\<close>

theorem Message_init_fields:
  "(case Message_search raw of
      Some (m, g) \<Rightarrow>
        g ''author'' = Some (author (Message_init raw)) \<and>
        g ''to'' = Some (to (Message_init raw)) \<and>
        g ''text'' = Some (text_of (Message_init raw))
    | None \<Rightarrow> Message_init raw = \<lparr>author = '''', to = '''', text_of = ''''\<rparr>) \<and>
   (case privmsg_shape raw of
      Some (a, h, t, x) \<Rightarrow>
        Message_search raw \<noteq> None \<and>
        Message_init raw = \<lparr>author = a, to = t, text_of = x\<rparr> \<and>
        (\<exists>rest. raw = '':'' @ a @ (case h of None \<Rightarrow> [] | Some h' \<Rightarrow> ''!'' @ h')
                   @ '' PRIVMSG '' @ t @ '' :'' @ x @ rest
               \<and> (rest = [] \<or> hd rest = CHR 0x0A))
    | None \<Rightarrow> Message_search raw = None)"
proof (cases "privmsg_shape raw")
  case None
  with Message_search_shape [of raw] have "Message_search raw = None" by simp
  with None show ?thesis by (simp add: Message_init_def)
next
  case (Some p)
  obtain a h t x where p: "p = (a, h, t, x)" by (cases p) auto
  from Message_search_shape [of raw] Some p
  obtain m g where mg: "Message_search raw = Some (m, g)" "g ''author'' = Some a"
    "g ''to'' = Some t" "g ''text'' = Some x" by auto
  from privmsg_shape_decompose [of raw a h t x] Some p
  have "\<exists>rest. raw = '':'' @ a @ (case h of None \<Rightarrow> [] | Some h' \<Rightarrow> ''!'' @ h')
                   @ '' PRIVMSG '' @ t @ '' :'' @ x @ rest
               \<and> (rest = [] \<or> hd rest = CHR 0x0A)" by simp
  with mg Some p show ?thesis by (simp add: Message_init_def)
qed

lemma privmsg_shape_example:
  "privmsg_shape '':alice!al@host PRIVMSG #room :!ping now'' =
     Some (''alice'', Some ''al@host'', ''#room'', ''!ping now'')"
  by code_simp

lemma privmsg_shape_notice: "privmsg_shape ''NOTICE hello'' = None"
  by code_simp

theorem Message_init_fields_witness:
  "Message_init '':alice!al@host PRIVMSG #room :!ping now'' =
     \<lparr>author = ''alice'', to = ''#room'', text_of = ''!ping now''\<rparr> \<and>
   Message_init ''NOTICE hello'' = \<lparr>author = [], to = [], text_of = []\<rparr>"
  using Message_init_fields [of "'':alice!al@host PRIVMSG #room :!ping now''"]
    Message_init_fields [of "''NOTICE hello''"]
  by (auto simp: privmsg_shape_example privmsg_shape_notice)

subsection \<open>Registering and removing rules\<close>

lemma dict_set_keys: "set (dict_keys (dict_set d k v)) = insert k (set (dict_keys d))"
  unfolding dict_keys_def by (induction d) (force split: if_splits)+


lemma dict_pop_keys:
  "dict_pop d k = Inr d' \<Longrightarrow> set (dict_keys d') = set (dict_keys d) - {k}"
  by (auto simp: dict_pop_def dict_keys_def split: if_splits)

lemma remove_command_absent_help:
  assumes "command_name \<in> set (dict_keys (callbacks self))"
    and "command_name \<notin> set (dict_keys (commands_help self))"
  shows "remove_command self command_name =
           (Raised KeyError,
            self\<lparr>callbacks := filter (\<lambda>(k, v). k \<noteq> command_name) (callbacks self)\<rparr>)"
  using assms by (simp add: remove_command_def dict_pop_def Let_def)

lemma remove_command_absent:
  "command_name \<notin> set (dict_keys (callbacks self)) \<Longrightarrow>
     remove_command self command_name = (Done, self)"
  by (simp add: remove_command_def)

lemma remove_command_both:
  assumes "command_name \<in> set (dict_keys (callbacks self))"
    and "command_name \<in> set (dict_keys (commands_help self))"
  shows "remove_command self command_name =
           (Done,
            self\<lparr>callbacks := filter (\<lambda>(k, v). k \<noteq> command_name) (callbacks self),
                 commands_help := filter (\<lambda>(k, v). k \<noteq> command_name) (commands_help self)\<rparr>)"
  using assms by (simp add: remove_command_def dict_pop_def Let_def)

lemma add_command_no_help:
  assumes "cmnd_type command \<noteq> 2"
  shows "callbacks (add_command self command False) =
           dict_set (callbacks self) (name_of command) command \<and>
         commands_help (add_command self command False) = commands_help self"
  using assms by (simp add: add_command_def)

text \<open>
  C10. When the name is a key of \<open>callbacks\<close> and no key of \<open>commands_help\<close>,
  \<open>remove_command\<close> raises KeyError after the rule has been removed from \<open>callbacks\<close>:
  the name is no longer a key of \<open>callbacks\<close>, the other rules are kept, and
  \<open>commands_help\<close> is as before. When the name is no key of \<open>callbacks\<close>, the call
  returns and the bot is unchanged. Registering a non-periodic rule without \<open>add_to_help\<close>
  under a name that \<open>commands_help\<close> does not hold gives such a bot.
\<close>

theorem remove_command_KeyError:
  "(command_name \<in> set (dict_keys (callbacks self)) \<and>
    command_name \<notin> set (dict_keys (commands_help self)) \<longrightarrow>
      remove_command self command_name =
        (Raised KeyError,
         self\<lparr>callbacks := filter (\<lambda>(k, v). k \<noteq> command_name) (callbacks self)\<rparr>) \<and>
      command_name \<notin> set (dict_keys (callbacks (snd (remove_command self command_name)))) \<and>
      commands_help (snd (remove_command self command_name)) = commands_help self) \<and>
   (command_name \<notin> set (dict_keys (callbacks self)) \<longrightarrow>
      remove_command self command_name = (Done, self)) \<and>
   (cmnd_type command \<noteq> 2 \<and> name_of command \<notin> set (dict_keys (commands_help self)) \<longrightarrow>
      name_of command \<in> set (dict_keys (callbacks (add_command self command False))) \<and>
      name_of command \<notin> set (dict_keys (commands_help (add_command self command False))))"
proof -
  have a: "command_name \<in> set (dict_keys (callbacks self)) \<and>
    command_name \<notin> set (dict_keys (commands_help self)) \<longrightarrow>
      remove_command self command_name =
        (Raised KeyError,
         self\<lparr>callbacks := filter (\<lambda>(k, v). k \<noteq> command_name) (callbacks self)\<rparr>) \<and>
      command_name \<notin> set (dict_keys (callbacks (snd (remove_command self command_name)))) \<and>
      commands_help (snd (remove_command self command_name)) = commands_help self"
    by (auto simp: remove_command_absent_help dict_keys_def)
  have b: "command_name \<notin> set (dict_keys (callbacks self)) \<longrightarrow>
      remove_command self command_name = (Done, self)"
    by (simp add: remove_command_absent)
  have c: "cmnd_type command \<noteq> 2 \<and> name_of command \<notin> set (dict_keys (commands_help self)) \<longrightarrow>
      name_of command \<in> set (dict_keys (callbacks (add_command self command False))) \<and>
      name_of command \<notin> set (dict_keys (commands_help (add_command self command False)))"
    by (simp add: add_command_no_help dict_set_keys)
  from a b c show ?thesis by blast
qed

lemma ping_rule_fields:
  "name_of ping_rule = ''ping''" "cmnd_type ping_rule = 1" "func ping_rule = pong"
  "desc ping_rule = ''Answer pong.''"
  by (simp_all add: ping_rule_def command_decorator_def Command_init_def)

lemma bot0_fields:
  "callbacks bot0 = []" "commands_help bot0 = []" "history bot0 = IntAttr 100"
  "channels bot0 = [''#general'']" "auth_of bot0 = []" "irc_of bot0 = IRC_init"
  "prefix_of bot0 = ''!''" "threads bot0 = []"
  by (simp_all add: bot0_def Bot_init_def Let_def)

theorem remove_command_KeyError_witness:
  "remove_command (add_command bot0 ping_rule False) ''ping'' = (Raised KeyError, bot0) \<and>
   remove_command bot0 ''ping'' = (Done, bot0)"
  using remove_command_KeyError [of "''ping''" "add_command bot0 ping_rule False" ping_rule]
    remove_command_KeyError [of "''ping''" bot0 ping_rule]
  by (simp add: add_command_def ping_rule_fields bot0_fields dict_keys_def)


subsection \<open>The history of the bot\<close>

lemma add_command_history [simp]: "history (add_command self command h) = history self"
  by (simp add: add_command_def Let_def)

lemma add_commands_module_history [simp]:
  "history (add_commands_module self m) = history self"
proof -
  have "history (foldl (\<lambda>b (cmnd_name, cmnd).
                  case cmnd of None \<Rightarrow> b | Some c \<Rightarrow> add_command b c h) self m) = history self"
    for h
    by (induction m arbitrary: self) (auto split: option.splits)
  then show ?thesis by (simp add: add_commands_module_def Let_def)
qed

lemma add_commands_modules_history [simp]:
  "history (add_commands_modules self ms) = history self"
  unfolding add_commands_modules_def by (induction ms arbitrary: self) auto

lemma add_commands_history [simp]: "history (add_commands self cmds) = history self"
proof -
  have "history (foldl (\<lambda>b command. add_command b command h) self cmds) = history self" for h
    by (induction cmds arbitrary: self) auto
  then show ?thesis by (simp add: add_commands_def Let_def)
qed

lemma Bot_init_history:
  "history (snd (Bot_init auth chans prefix lim commands_modules)) = IntAttr lim"
  by (simp add: Bot_init_def Let_def)

lemma mainloop_IntAttr:
  assumes "history self = IntAttr n"
  shows "mainloop PREFIX self cs =
     (case receive (irc_of self) of
        (None, irc') \<Rightarrow> Some (Blocked, self\<lparr>irc_of := irc'\<rparr>, cs)
      | (Some message, irc') \<Rightarrow> Some (Raised AttributeError, self\<lparr>irc_of := irc'\<rparr>, cs))"
  using assms
  by (subst mainloop.simps) (simp add: history_add_def Let_def split: prod.splits option.splits)

lemma start_IntAttr:
  assumes "history self = IntAttr n"
  shows "\<exists>st self'. start PREFIX self nick = Some (st, self', []) \<and> st \<noteq> Done \<and>
           history self' = IntAttr n"
proof (cases "connexion (irc_of self) nick (auth_of self)")
  case (Pair st irc1)
  show ?thesis
  proof (cases "st = Done")
    case True
    define self1 where "self1 = self\<lparr>irc_of := foldl IRC_join irc1 (channels self)\<rparr>"
    have h: "history self1 = IntAttr n" using assms by (simp add: self1_def)
    have "start PREFIX self nick = mainloop PREFIX self1 []"
      using Pair True by (simp add: start_def self1_def)
    then show ?thesis
      using mainloop_IntAttr [OF h, of PREFIX "[]"] h
      by (auto split: prod.splits option.splits)
  next
    case False
    then have "start PREFIX self nick = Some (st, self\<lparr>irc_of := irc1\<rparr>, [])"
      using Pair by (cases st) (simp_all add: start_def)
    then show ?thesis using False assms by simp
  qed
qed

text \<open>
  C1 (the code at a concrete input). The bot is built by \<open>Bot.__init__\<close> with the default
  limit, the rule \<open>ping\<close> is registered, and the server sends the login confirmation and
  then a PRIVMSG line with the text "!ping". \<open>Bot.start\<close> logs in, joins the channel,
  receives the message and raises AttributeError at \<open>self.history.add(message)\<close>: the
  attribute \<open>history\<close> is the number 100, nothing is appended to a History, and the rule,
  whose predicate holds on the message, is not called.
\<close>

theorem start_history_AttributeError:
  "start ''!''
     ((add_command bot0 ping_rule False)\<lparr>irc_of := IRC_init\<lparr>inbox := [logged_in_line, ping_line]\<rparr>\<rparr>)
     ''bot''
   = Some (Raised AttributeError,
           (add_command bot0 ping_rule False)
             \<lparr>irc_of := \<lparr>connected = True,
                         socket_out = [''USER bot * * :bot'' @ CRLF, ''NICK bot'' @ CRLF,
                                       ''JOIN #general'' @ CRLF],
                         inbox = []\<rparr>\<rparr>,
           []) \<and>
   history (add_command bot0 ping_rule False) = IntAttr 100 \<and>
   events_hold ''!'' (events ping_rule) (Message_init ping_line) = Inr True"
proof -
  have c: "contains logged_in_line ''You are now logged in''"
    "\<not> contains logged_in_line '' PRIVMSG ''" "contains ping_line '' PRIVMSG ''"
    by (simp_all add: logged_in_line_def ping_line_def startswith_def)
  have m: "Message_init ping_line = \<lparr>author = ''alice'', to = ''#general'', text_of = ''!ping''\<rparr>"
    unfolding ping_line_def by code_simp
  have e: "events_hold ''!'' (events ping_rule) (Message_init ping_line) = Inr True"
    unfolding m
    by (simp add: events_hold_def ping_rule_def command_decorator_def Command_init_def
          command_event_def command_alias_def)
  have s: "start ''!''
     ((add_command bot0 ping_rule False)\<lparr>irc_of := IRC_init\<lparr>inbox := [logged_in_line, ping_line]\<rparr>\<rparr>)
     ''bot''
   = Some (Raised AttributeError,
           (add_command bot0 ping_rule False)
             \<lparr>irc_of := \<lparr>connected = True,
                         socket_out = [''USER bot * * :bot'' @ CRLF, ''NICK bot'' @ CRLF,
                                       ''JOIN #general'' @ CRLF],
                         inbox = []\<rparr>\<rparr>,
           [])"
    by (simp add: start_def connexion_def connexion_login_def Let_def waitfor_def IRC_send_def
          IRC_join_def IRC_init_def c mainloop_IntAttr [where n = 100] receive_def
          add_command_def ping_rule_fields bot0_fields)
  from s e show ?thesis by (simp add: bot0_fields)
qed


subsection \<open>The dispatch loop\<close>








text \<open>
  In \<open>Bot.start\<close> the loop over the rules runs for a received message once
  \<open>self.history.add\<close> has returned, and the main loop goes on when the loop over the
  rules has ended normally.
\<close>

lemma mainloop_dispatch:
  assumes "receive (irc_of self) = (Some message, irc')"
    and "history_add (history self) message = Inr hist"
    and "dispatch PREFIX message (dict_values (callbacks self))
           (self\<lparr>irc_of := irc', history := hist\<rparr>, cs) = (st, self', cs')"
  shows "mainloop PREFIX self cs =
           (if st = Done then mainloop PREFIX self' cs' else Some (st, self', cs'))"
  using assms by (subst mainloop.simps) (simp add: Let_def)












subsection \<open>parse\<close>

lemma rmatch_StarC_Cons:
  "\<exists>rest. rmatch (StarC P) s g = (dropWhile P s, g) # rest"
proof -
  define n where "n = length (takeWhile P s)"
  have "rev [0..<Suc n] = n # rev [0..<n]" by simp
  moreover have "drop n s = dropWhile P s"
    unfolding n_def by (rule dropWhile_eq_drop [symmetric])
  ultimately show ?thesis
    unfolding rmatch.simps n_def [symmetric] by simp
qed

lemma rmatch_Seq_PlusC:
  assumes fail: "\<And>t g'. t \<noteq> [] \<Longrightarrow> P (hd t) \<Longrightarrow> rmatch r t g' = []"
  shows "rmatch (Seq (PlusC P) r) s g =
     (if takeWhile P s = [] then [] else rmatch r (dropWhile P s) g)"
proof (cases "takeWhile P s = []")
  case True
  then show ?thesis by (simp add: rmatch.simps)
next
  case False
  define n where "n = length (takeWhile P s)"
  have n: "0 < n" using False by (simp add: n_def)
  have up: "rev [1..<Suc n] = n # rev [1..<n]" using n by simp
  have tl0: "concat (map (\<lambda>k. rmatch r (drop k s) g) (rev [1..<n])) = []"
  proof (rule concat_all_Nil)
    fix k assume "k \<in> set (rev [1..<n])"
    then have "k < length (takeWhile P s)" by (simp add: n_def)
    from takeWhile_nth_hd [OF this]
    show "rmatch r (drop k s) g = []"
      by (simp add: fail)
  qed
  have dn: "drop n s = dropWhile P s"
    unfolding n_def by (rule dropWhile_eq_drop [symmetric])
  have "rmatch (Seq (PlusC P) r) s g =
      concat (map (\<lambda>k. rmatch r (drop k s) g) (rev [1..<Suc n]))"
    unfolding rmatch.simps n_def by (simp add: comp_def)
  also have "\<dots> = rmatch r (drop n s) g"
    unfolding up using tl0 by simp
  finally show ?thesis using False dn by simp
qed

lemma rmatch_Seq_PlusC_Cons:
  assumes "takeWhile P s \<noteq> []"
    and "\<And>t. \<exists>rest. rmatch r t g = (f t, g) # rest"
  shows "\<exists>rest. rmatch (Seq (PlusC P) r) s g = (f (dropWhile P s), g) # rest"
proof -
  define n where "n = length (takeWhile P s)"
  have n: "0 < n" using assms(1) by (simp add: n_def)
  have up: "rev [1..<Suc n] = n # rev [1..<n]" using n by simp
  have dn: "drop n s = dropWhile P s"
    unfolding n_def by (rule dropWhile_eq_drop [symmetric])
  have "rmatch (Seq (PlusC P) r) s g =
      concat (map (\<lambda>k. rmatch r (drop k s) g) (rev [1..<Suc n]))"
    unfolding rmatch.simps n_def by (simp add: comp_def)
  also have "\<dots> = rmatch r (dropWhile P s) g @
      concat (map (\<lambda>k. rmatch r (drop k s) g) (rev [1..<n]))"
    unfolding up by (simp add: dn)
  finally show ?thesis using assms(2) [of "dropWhile P s"] by auto
qed

lemma Lit_fail:
  "t \<noteq> [] \<Longrightarrow> hd t \<noteq> q \<Longrightarrow> rmatch (Seq (Lit [q]) r) t g = []"
  by (cases t) (simp_all add: rmatch.simps startswith_def)

lemma rmatch_quoted_re:
  "rmatch (quoted_re q) s g =
     (if quoted q s
      then rmatch (StarC (\<lambda>c. c = CHR '' ''))
             (drop 1 (dropWhile (\<lambda>c. c \<noteq> q) (drop 1 s))) g
      else [])"
proof -
  have 1: "rmatch (Seq (Lit [q]) r) t g' =
      (if startswith t [q] then rmatch r (drop 1 t) g' else [])" for r t g'
    by (rule rmatch_Seq_Lit) simp
  have 2: "rmatch (Seq (PlusC (\<lambda>c. c \<noteq> q)) (Seq (Lit [q]) r)) t g' =
      (if takeWhile (\<lambda>c. c \<noteq> q) t = [] then []
       else rmatch (Seq (Lit [q]) r) (dropWhile (\<lambda>c. c \<noteq> q) t) g')" for r t g'
    by (rule rmatch_Seq_PlusC) (rule Lit_fail)
  show ?thesis
    unfolding quoted_re_def 1 2 quoted_def by simp
qed

lemma rmatch_plain_re_Nil:
  "s = [] \<or> hd s = CHR '' '' \<Longrightarrow> rmatch plain_re s g = []"
  unfolding plain_re_def by (cases s) (auto simp: rmatch.simps)

lemma rmatch_plain_re_Cons:
  assumes "s \<noteq> []" and "hd s \<noteq> CHR '' ''"
  shows "\<exists>rest. rmatch plain_re s g =
           (dropWhile (\<lambda>c. c = CHR '' '') (dropWhile (\<lambda>c. c \<noteq> CHR '' '') s), g) # rest"
  unfolding plain_re_def
proof (rule rmatch_Seq_PlusC_Cons)
  show "takeWhile (\<lambda>c. c \<noteq> CHR '' '') s \<noteq> []" using assms by (cases s) auto
  show "\<exists>rest. rmatch (StarC (\<lambda>c. c = CHR '' '')) t g =
          (dropWhile (\<lambda>c. c = CHR '' '') t, g) # rest" for t
    by (rule rmatch_StarC_Cons)
qed


lemma take_length_drop: "take (length s - (length s - k)) s = take k s"
  by (cases "k \<le> length s") simp_all

lemma Group_first:
  assumes "rmatch r s g = (drop k s, g') # rest"
  shows "\<exists>rest'. rmatch (Group name r) s g = (drop k s, g'(name \<mapsto> take k s)) # rest'"
  unfolding rmatch.simps assms by (simp add: take_length_drop)

lemma Group_Nil: "rmatch r s g = [] \<Longrightarrow> rmatch (Group name r) s g = []"
  by (simp add: rmatch.simps)

lemma Alt_first:
  "rmatch a s g = x # rest \<Longrightarrow> \<exists>rest'. rmatch (Alt a b) s g = x # rest'"
  by (simp add: rmatch.simps)

lemma Alt_Nil: "rmatch a s g = [] \<Longrightarrow> rmatch (Alt a b) s g = rmatch b s g"
  by (simp add: rmatch.simps)

lemma quoted_re_first:
  assumes "quoted q s"
  shows "\<exists>rest. rmatch (quoted_re q) s g =
           (drop (2 + length (takeWhile (\<lambda>c. c \<noteq> q) (drop 1 s)) +
                  length (takeWhile (\<lambda>c. c = CHR '' '')
                            (drop (2 + length (takeWhile (\<lambda>c. c \<noteq> q) (drop 1 s))) s))) s, g)
           # rest"
proof -
  define n where "n = length (takeWhile (\<lambda>c. c \<noteq> q) (drop 1 s))"
  have a: "drop 1 (dropWhile (\<lambda>c. c \<noteq> q) (drop 1 s)) = drop (2 + n) s"
    unfolding n_def dropWhile_eq_drop [of "\<lambda>c. c \<noteq> q"] by (simp add: add.commute)
  have b: "dropWhile (\<lambda>c. c = CHR '' '') (drop (2 + n) s) =
      drop (2 + n + length (takeWhile (\<lambda>c. c = CHR '' '') (drop (2 + n) s))) s"
    unfolding dropWhile_eq_drop [of "\<lambda>c. c = CHR '' ''"] by (simp add: add.commute)
  from rmatch_StarC_Cons [of "\<lambda>c. c = CHR '' ''" "drop (2 + n) s" g]
  show ?thesis
    unfolding rmatch_quoted_re n_def [symmetric] a b using assms by simp
qed

lemma plain_re_first:
  assumes "s \<noteq> []" and "hd s \<noteq> CHR '' ''"
  shows "\<exists>rest. rmatch plain_re s g =
           (drop (length (takeWhile (\<lambda>c. c \<noteq> CHR '' '') s) +
                  length (takeWhile (\<lambda>c. c = CHR '' '')
                            (drop (length (takeWhile (\<lambda>c. c \<noteq> CHR '' '') s)) s))) s, g)
           # rest"
proof -
  define n where "n = length (takeWhile (\<lambda>c. c \<noteq> CHR '' '') s)"
  have a: "dropWhile (\<lambda>c. c \<noteq> CHR '' '') s = drop n s"
    unfolding n_def by (rule dropWhile_eq_drop)
  have b: "dropWhile (\<lambda>c. c = CHR '' '') (drop n s) =
      drop (n + length (takeWhile (\<lambda>c. c = CHR '' '') (drop n s))) s"
    unfolding dropWhile_eq_drop [of "\<lambda>c. c = CHR '' ''"] by (simp add: add.commute)
  from rmatch_plain_re_Cons [OF assms, of g]
  show ?thesis unfolding a b n_def [symmetric] by simp
qed

lemma word_len_0: "word_len s = 0 \<longleftrightarrow> \<not> quoted dquote s \<and> \<not> quoted squote s \<and> (s = [] \<or> hd s = CHR '' '')"
  by (cases s) (auto simp: word_len_def)

lemma parse_pattern_first:
  assumes "match_len s \<noteq> 0"
  shows "\<exists>g' rest. rmatch parse_pattern s g =
           (drop (match_len s) s, g'(''1'' \<mapsto> take (match_len s) s)) # rest"
proof -
  have w: "word_len s \<noteq> 0" using assms by (auto simp: match_len_def split: if_splits)
  have m: "match_len s =
      word_len s + length (takeWhile (\<lambda>c. c = CHR '' '') (drop (word_len s) s))"
    using w by (simp add: match_len_def)
  consider (dq) "quoted dquote s"
    | (sq) "\<not> quoted dquote s" "quoted squote s"
    | (plain) "\<not> quoted dquote s" "\<not> quoted squote s" "s \<noteq> []" "hd s \<noteq> CHR '' ''"
    using w word_len_0 [of s] by auto
  then have "\<exists>g' rest. rmatch (Alt (Group ''2'' (quoted_re dquote))
                (Alt (Group ''3'' (quoted_re squote)) (Group ''4'' plain_re))) s g =
           (drop (match_len s) s, g') # rest"
  proof cases
    case dq
    then have wl: "word_len s = 2 + length (takeWhile (\<lambda>c. c \<noteq> dquote) (drop 1 s))"
      by (simp add: word_len_def)
    from quoted_re_first [OF dq, of g] obtain rest where
      "rmatch (quoted_re dquote) s g = (drop (match_len s) s, g) # rest"
      unfolding m wl by blast
    from Group_first [OF this, of "''2''"] obtain rest' where
      "rmatch (Group ''2'' (quoted_re dquote)) s g =
         (drop (match_len s) s, g(''2'' \<mapsto> take (match_len s) s)) # rest'"
      by blast
    from Alt_first [OF this] show ?thesis by blast
  next
    case sq
    then have wl: "word_len s = 2 + length (takeWhile (\<lambda>c. c \<noteq> squote) (drop 1 s))"
      by (simp add: word_len_def)
    have n: "rmatch (Group ''2'' (quoted_re dquote)) s g = []"
      using sq(1) by (simp add: Group_Nil rmatch_quoted_re)
    from quoted_re_first [OF sq(2), of g] obtain rest where
      "rmatch (quoted_re squote) s g = (drop (match_len s) s, g) # rest"
      unfolding m wl by blast
    from Group_first [OF this, of "''3''"] obtain rest' where
      "rmatch (Group ''3'' (quoted_re squote)) s g =
         (drop (match_len s) s, g(''3'' \<mapsto> take (match_len s) s)) # rest'"
      by blast
    from Alt_first [OF this] show ?thesis unfolding Alt_Nil [OF n] by blast
  next
    case plain
    then have wl: "word_len s = length (takeWhile (\<lambda>c. c \<noteq> CHR '' '') s)"
      by (simp add: word_len_def)
    have n2: "rmatch (Group ''2'' (quoted_re dquote)) s g = []"
      using plain(1) by (simp add: Group_Nil rmatch_quoted_re)
    have n3: "rmatch (Group ''3'' (quoted_re squote)) s g = []"
      using plain(2) by (simp add: Group_Nil rmatch_quoted_re)
    from plain_re_first [OF plain(3,4), of g] obtain rest where
      "rmatch plain_re s g = (drop (match_len s) s, g) # rest"
      unfolding m wl by blast
    from Group_first [OF this, of "''4''"] obtain rest' where
      "rmatch (Group ''4'' plain_re) s g =
         (drop (match_len s) s, g(''4'' \<mapsto> take (match_len s) s)) # rest'"
      by blast
    then show ?thesis unfolding Alt_Nil [OF n2] Alt_Nil [OF n3] by blast
  qed
  then obtain g' rest where "rmatch (Alt (Group ''2'' (quoted_re dquote))
                (Alt (Group ''3'' (quoted_re squote)) (Group ''4'' plain_re))) s g =
           (drop (match_len s) s, g') # rest"
    by blast
  from Group_first [OF this, of "''1''"] show ?thesis
    unfolding parse_pattern_def by blast
qed

lemma parse_pattern_Nil:
  assumes "match_len s = 0"
  shows "rmatch parse_pattern s g = []"
proof -
  have w: "word_len s = 0" using assms by (auto simp: match_len_def split: if_splits)
  then have "\<not> quoted dquote s" "\<not> quoted squote s" "s = [] \<or> hd s = CHR '' ''"
    using word_len_0 [of s] by blast+
  then show ?thesis
    unfolding parse_pattern_def
    by (simp add: Group_Nil Alt_Nil rmatch_quoted_re rmatch_plain_re_Nil)
qed

lemma re_match_parse_pattern:
  "(match_len s = 0 \<longrightarrow> re_match parse_pattern s = None) \<and>
   (match_len s \<noteq> 0 \<longrightarrow>
      (\<exists>g. re_match parse_pattern s = Some (take (match_len s) s, g) \<and>
           g ''1'' = Some (take (match_len s) s)))"
proof (cases "match_len s = 0")
  case True
  then show ?thesis by (simp add: re_match_def parse_pattern_Nil)
next
  case False
  from parse_pattern_first [OF False, of Map.empty] obtain g' rest where
    "rmatch parse_pattern s Map.empty =
       (drop (match_len s) s, g'(''1'' \<mapsto> take (match_len s) s)) # rest"
    by blast
  then show ?thesis using False by (simp add: re_match_def take_length_drop)
qed

lemma parse_token_hd: "parse_token (m # rest) = parse_token [m]"
  by (simp add: parse_token_def)

lemma parse_Nil: "parse [] = []"
proof -
  have "match_len [] = 0" by (simp add: match_len_def word_len_def quoted_def startswith_def)
  then have "re_match parse_pattern [] = None" using re_match_parse_pattern [of "[]"] by simp
  then show ?thesis by (simp add: parse_def findall.simps)
qed

lemma parse_skip:
  assumes "s \<noteq> []" and "match_len s = 0"
  shows "parse s = parse (tl s)"
proof -
  have "re_match parse_pattern s = None" using re_match_parse_pattern [of s] assms by simp
  then show ?thesis using assms(1) by (simp add: parse_def findall.simps [of _ _ s])
qed

lemma parse_match:
  assumes "match_len s \<noteq> 0"
  shows "parse s = parse_token [take (match_len s) s] # parse (drop (match_len s) s)"
proof -
  from re_match_parse_pattern [of s] assms obtain g where
    g: "re_match parse_pattern s = Some (take (match_len s) s, g)"
       "g ''1'' = Some (take (match_len s) s)"
    by blast
  have ne: "s \<noteq> []" using assms by (auto simp: match_len_def word_len_def quoted_def startswith_def)
  have d: "drop (max (Suc 0) (min (length s) (match_len s))) s = drop (match_len s) s"
    using assms ne by (cases "match_len s \<le> length s") (auto simp: max_def min_def)
  show ?thesis
    unfolding parse_def
    by (subst findall.simps)
       (simp add: g ne d group_or_empty_def parse_token_hd [of _ "_ # _"])
qed


lemma parse_space: "parse (CHR '' '' # s) = parse s"
proof -
  have "match_len (CHR '' '' # s) = 0"
    by (simp add: match_len_def word_len_def quoted_def startswith_def dquote_def squote_def)
  from parse_skip [OF _ this] show ?thesis by simp
qed

lemma isspace_quote: "\<not> isspace dquote" "\<not> isspace squote"
  by (simp_all add: isspace_def dquote_def squote_def)

lemma isspace_space: "isspace (CHR '' '')"
  by (simp add: isspace_def)

lemma dropWhile_spaces:
  "dropWhile isspace (replicate n (CHR '' '') @ t) = dropWhile isspace t"
  by (induction n) (simp_all add: isspace_space)

lemma rstrip_spaces: "rstrip (s @ replicate n (CHR '' '')) = rstrip s"
  by (simp add: rstrip_def dropWhile_spaces)

lemma rstrip_snoc: "\<not> isspace c \<Longrightarrow> rstrip (s @ [c]) = s @ [c]"
  by (simp add: rstrip_def)

lemma rstrip_id: "s \<noteq> [] \<Longrightarrow> \<not> isspace (last s) \<Longrightarrow> rstrip s = s"
  by (cases s rule: rev_cases) (simp_all add: rstrip_snoc)

lemma lstrip_Cons: "\<not> isspace c \<Longrightarrow> lstrip (c # s) = c # s"
  by (simp add: lstrip_def)

lemma strip_spaces: "strip (s @ replicate n (CHR '' '')) = strip s"
proof (cases "lstrip s = []")
  case True
  then have "\<forall>c \<in> set s. isspace c"
    by (simp add: lstrip_def dropWhile_eq_Nil_conv)
  then have "lstrip (s @ replicate n (CHR '' '')) = []"
    by (auto simp: lstrip_def dropWhile_eq_Nil_conv isspace_space)
  with True show ?thesis by (simp add: strip_def)
next
  case False
  then have "\<exists>c \<in> set s. \<not> isspace c"
    by (simp add: lstrip_def dropWhile_eq_Nil_conv)
  then have "lstrip (s @ replicate n (CHR '' '')) = lstrip s @ replicate n (CHR '' '')"
    by (auto simp: lstrip_def dropWhile_append)
  then show ?thesis by (simp add: strip_def rstrip_spaces)
qed

lemma parse_token_spaces: "parse_token [m @ replicate n (CHR '' '')] = parse_token [m]"
  by (simp add: parse_token_def strip_spaces)

lemma takeWhile_spaces:
  "takeWhile (\<lambda>c. c = CHR '' '') s = replicate (length (takeWhile (\<lambda>c. c = CHR '' '') s)) (CHR '' '')"
  by (induction s) auto

lemma parse_quoted:
  assumes q: "q = dquote \<or> q = squote" and "quoted q s"
  shows "parse s = takeWhile (\<lambda>c. c \<noteq> q) (drop 1 s) #
           parse (dropWhile (\<lambda>c. c = CHR '' '')
                    (drop (2 + length (takeWhile (\<lambda>c. c \<noteq> q) (drop 1 s))) s))"
proof -
  define w where "w = takeWhile (\<lambda>c. c \<noteq> q) (drop 1 s)"
  define u where "u = drop (2 + length w) s"
  define n where "n = length (takeWhile (\<lambda>c. c = CHR '' '') u)"
  have nd: "q = squote \<Longrightarrow> \<not> quoted dquote s"
    using assms(2) by (auto simp: quoted_def startswith_Cons dquote_def squote_def)
  have wl: "word_len s = 2 + length w"
    using assms nd by (auto simp: word_len_def w_def)
  have ml: "match_len s = 2 + length w + n"
    unfolding match_len_def wl n_def u_def by simp
  have s1: "s = q # drop 1 s"
    using assms(2) by (cases s) (auto simp: quoted_def startswith_Cons)
  have s2: "drop 1 s = w @ dropWhile (\<lambda>c. c \<noteq> q) (drop 1 s)"
    by (simp add: w_def)
  have s3: "dropWhile (\<lambda>c. c \<noteq> q) (drop 1 s) = q # u"
  proof -
    have "startswith (dropWhile (\<lambda>c. c \<noteq> q) (drop 1 s)) [q]"
      using assms(2) by (simp add: quoted_def)
    then have "dropWhile (\<lambda>c. c \<noteq> q) (drop 1 s) = q # drop 1 (dropWhile (\<lambda>c. c \<noteq> q) (drop 1 s))"
      by (cases "dropWhile (\<lambda>c. c \<noteq> q) (drop 1 s)") (auto simp: startswith_Cons)
    moreover have "drop 1 (dropWhile (\<lambda>c. c \<noteq> q) (drop 1 s)) = u"
      unfolding u_def w_def dropWhile_eq_drop [of "\<lambda>c. c \<noteq> q"] by (simp add: add.commute)
    ultimately show ?thesis by simp
  qed
  have s: "s = (q # w @ [q]) @ u"
    by (subst s1, subst s2, subst s3) simp
  have u: "u = replicate n (CHR '' '') @ dropWhile (\<lambda>c. c = CHR '' '') u"
    unfolding n_def using takeWhile_spaces [of u]
    by (metis takeWhile_dropWhile_id)
  have len: "length (q # w @ [q]) = 2 + length w" by simp
  have tk: "take (match_len s) s = (q # w @ [q]) @ replicate n (CHR '' '')"
    unfolding ml by (subst s, subst u) (simp add: n_def)
  have dr: "drop (match_len s) s = dropWhile (\<lambda>c. c = CHR '' '') u"
    unfolding ml
    by (metis add.commute drop_drop dropWhile_eq_drop n_def u_def)
  have nq: "\<not> isspace q" using q isspace_quote by auto
  have wne: "w \<noteq> []" using assms(2) by (simp add: quoted_def w_def)
  have st: "rstrip (strip (q # w @ [q])) = q # w @ [q]"
    using nq rstrip_snoc [of q "q # w"] by (simp add: strip_def lstrip_Cons)
  have tok: "parse_token [q # w @ [q]] = w"
    unfolding parse_token_def using q
    by (auto simp: st Let_def startswith_def endswith_def butlast_append)
  have "match_len s \<noteq> 0" unfolding ml by simp
  from parse_match [OF this] show ?thesis
    unfolding tk dr parse_token_spaces tok by (simp add: w_def u_def)
qed

lemma parse_plain:
  assumes "s \<noteq> []" and "hd s \<noteq> CHR '' ''" and "\<not> quoted dquote s" and "\<not> quoted squote s"
  shows "parse s = parse_token [takeWhile (\<lambda>c. c \<noteq> CHR '' '') s] #
           parse (dropWhile (\<lambda>c. c = CHR '' '') (dropWhile (\<lambda>c. c \<noteq> CHR '' '') s))"
proof -
  define w where "w = takeWhile (\<lambda>c. c \<noteq> CHR '' '') s"
  define u where "u = dropWhile (\<lambda>c. c \<noteq> CHR '' '') s"
  define n where "n = length (takeWhile (\<lambda>c. c = CHR '' '') u)"
  have wne: "w \<noteq> []" using assms(1,2) by (cases s) (auto simp: w_def)
  have wl: "word_len s = length w"
    using assms(3,4) by (simp add: word_len_def w_def)
  have ud: "u = drop (length w) s"
    unfolding u_def w_def by (rule dropWhile_eq_drop)
  have ml: "match_len s = length w + n"
    unfolding match_len_def wl n_def ud using wne by simp
  have s: "s = w @ u" by (simp add: w_def u_def)
  have u: "u = replicate n (CHR '' '') @ dropWhile (\<lambda>c. c = CHR '' '') u"
    unfolding n_def using takeWhile_spaces [of u]
    by (metis takeWhile_dropWhile_id)
  have tk: "take (match_len s) s = w @ replicate n (CHR '' '')"
    unfolding ml by (subst s, subst u) (simp add: n_def)
  have dr: "drop (match_len s) s = dropWhile (\<lambda>c. c = CHR '' '') u"
    unfolding ml
    by (metis add.commute drop_drop dropWhile_eq_drop n_def ud)
  have "match_len s \<noteq> 0" unfolding ml using wne by simp
  from parse_match [OF this] show ?thesis
    unfolding tk dr parse_token_spaces by (simp add: w_def u_def)
qed


lemma not_quoted_hd: "s \<noteq> [] \<Longrightarrow> hd s \<noteq> q \<Longrightarrow> \<not> quoted q s"
  by (cases s) (auto simp: quoted_def startswith_Cons)

lemma not_quoted_absent: "q \<notin> set (drop 1 s) \<Longrightarrow> \<not> quoted q s"
proof -
  assume "q \<notin> set (drop 1 s)"
  then have "dropWhile (\<lambda>c. c \<noteq> q) (drop 1 s) = []"
    by (auto simp: dropWhile_eq_Nil_conv)
  then show ?thesis by (simp add: quoted_def startswith_Cons)
qed

lemma takeWhile_word:
  assumes "CHR '' '' \<notin> set w" and "v = [] \<or> hd v = CHR '' ''"
  shows "takeWhile (\<lambda>c. c \<noteq> CHR '' '') (w @ v) = w"
    and "dropWhile (\<lambda>c. c \<noteq> CHR '' '') (w @ v) = v"
  using assms by (cases v; auto simp: takeWhile_append dropWhile_append)+

lemma parse_token_plain:
  assumes "w \<noteq> []" and "\<not> isspace (hd w)" and "\<not> isspace (last w)"
    and "\<not> (hd w = dquote \<and> last w = dquote)" and "\<not> (hd w = squote \<and> last w = squote)"
  shows "parse_token [w] = w"
proof -
  have l: "lstrip w = w" using assms(1,2) by (cases w) (simp_all add: lstrip_Cons)
  have r: "rstrip w = w" using assms(1,3) by (rule rstrip_id)
  have e: "endswith w [q] \<longleftrightarrow> last w = q" for q
    using assms(1) by (cases w rule: rev_cases) (auto simp: endswith_def)
  have b: "startswith w [q] \<longleftrightarrow> hd w = q" for q
    using assms(1) by (cases w) (auto simp: startswith_Cons)
  show ?thesis
    unfolding parse_token_def using assms(4,5)
    by (auto simp: strip_def l r e b Let_def)
qed

lemma parse_unterminated:
  assumes q: "q = dquote \<or> q = squote"
    and w: "w \<noteq> []" "CHR '' '' \<notin> set w" "\<not> isspace (last w)"
    and v: "v = [] \<or> hd v = CHR '' ''"
    and nq: "q \<notin> set (w @ v)"
  shows "parse (q # w @ v) = (q # w) # parse (dropWhile (\<lambda>c. c = CHR '' '') v)"
proof -
  define s where "s = q # w @ v"
  have qs: "q \<noteq> CHR '' ''" "\<not> isspace q"
    using q by (auto simp: dquote_def squote_def isspace_def)
  have nqq: "\<not> quoted q s" by (rule not_quoted_absent) (use nq in \<open>simp add: s_def\<close>)
  have other: "\<not> quoted q' s" if "q' \<noteq> q" for q'
    by (rule not_quoted_hd) (use that in \<open>simp_all add: s_def\<close>)
  have nd: "\<not> quoted dquote s" and ns: "\<not> quoted squote s"
    using nqq other q by (cases "q = dquote"; auto simp: dquote_def squote_def)+
  have tw: "takeWhile (\<lambda>c. c \<noteq> CHR '' '') s = q # w"
    "dropWhile (\<lambda>c. c \<noteq> CHR '' '') s = v"
    using takeWhile_word [of "q # w" v] w(2) v qs(1) by (simp_all add: s_def)
  have lw: "last w \<noteq> q" using nq w(1) by (cases w rule: rev_cases) auto
  have tok: "parse_token [q # w] = q # w"
    by (rule parse_token_plain) (use w qs lw in auto)
  have "parse s = parse_token [takeWhile (\<lambda>c. c \<noteq> CHR '' '') s] #
           parse (dropWhile (\<lambda>c. c = CHR '' '') (dropWhile (\<lambda>c. c \<noteq> CHR '' '') s))"
    by (rule parse_plain) (use nd ns qs in \<open>simp_all add: s_def\<close>)
  then show ?thesis unfolding tw tok by (simp add: s_def)
qed

lemma parse_render:
  assumes "well_formed t" and "v = [] \<or> hd v = CHR '' ''"
  shows "parse (render t @ v) = token_text t # parse (dropWhile (\<lambda>c. c = CHR '' '') v)"
proof (cases t)
  case (Plain w)
  define s where "s = w @ v"
  from assms(1) Plain have w: "w \<noteq> []" "CHR '' '' \<notin> set w" "\<not> isspace (hd w)"
    "\<not> isspace (last w)" "hd w \<noteq> dquote" "hd w \<noteq> squote"
    by simp_all
  have hs: "s \<noteq> []" "hd s = hd w" using w(1) by (simp_all add: s_def)
  have sp: "hd w \<noteq> CHR '' ''" using w(3) isspace_space by auto
  have nd: "\<not> quoted dquote s" and ns: "\<not> quoted squote s"
    using not_quoted_hd [OF hs(1)] hs(2) w(5,6) by auto
  have tw: "takeWhile (\<lambda>c. c \<noteq> CHR '' '') s = w" "dropWhile (\<lambda>c. c \<noteq> CHR '' '') s = v"
    using takeWhile_word [OF w(2) assms(2)] by (simp_all add: s_def)
  have tok: "parse_token [w] = w"
    by (rule parse_token_plain) (use w in auto)
  have "parse s = parse_token [takeWhile (\<lambda>c. c \<noteq> CHR '' '') s] #
           parse (dropWhile (\<lambda>c. c = CHR '' '') (dropWhile (\<lambda>c. c \<noteq> CHR '' '') s))"
    by (rule parse_plain) (use hs sp nd ns in auto)
  then show ?thesis unfolding tw tok using Plain by (simp add: s_def)
next
  case (Quoted q w)
  define s where "s = q # w @ q # v"
  from assms(1) Quoted have w: "q = dquote \<or> q = squote" "w \<noteq> []" "q \<notin> set w"
    by simp_all
  have tw: "takeWhile (\<lambda>c. c \<noteq> q) (drop 1 s) = w"
    "dropWhile (\<lambda>c. c \<noteq> q) (drop 1 s) = q # v"
    using w(3) by (simp_all add: s_def takeWhile_append dropWhile_append)
  have qd: "quoted q s"
    unfolding quoted_def tw using w(2) by (simp add: s_def startswith_Cons)
  have dr: "drop (2 + length w) s = v" by (simp add: s_def)
  from parse_quoted [OF w(1) qd] show ?thesis
    unfolding tw dr using Quoted by (simp add: s_def)
qed

lemma join_tokens_hd:
  assumes "ts \<noteq> []" and "\<forall>t \<in> set ts. well_formed t"
  shows "join_tokens ts \<noteq> [] \<and> hd (join_tokens ts) \<noteq> CHR '' ''"
proof -
  obtain t rest where ts: "ts = t # rest" using assms(1) by (cases ts) auto
  then have wf: "well_formed t" using assms(2) by simp
  have r: "render t \<noteq> [] \<and> hd (render t) \<noteq> CHR '' ''"
    using wf isspace_space by (cases t) (auto simp: dquote_def squote_def)
  show ?thesis using r unfolding ts by (cases rest) auto
qed

lemma parse_join_tokens:
  "\<forall>t \<in> set ts. well_formed t \<Longrightarrow> parse (join_tokens ts) = map token_text ts"
proof (induction ts rule: join_tokens.induct)
  case 1
  then show ?case by (simp add: parse_Nil)
next
  case (2 t)
  then have "well_formed t" by simp
  from parse_render [OF this, of "[]"] show ?case by (simp add: parse_Nil)
next
  case (3 t u ts)
  then have wf: "well_formed t" and rest: "\<forall>t \<in> set (u # ts). well_formed t" by simp_all
  from join_tokens_hd [OF _ rest]
  have d: "dropWhile (\<lambda>c. c = CHR '' '') (CHR '' '' # join_tokens (u # ts)) = join_tokens (u # ts)"
    by (cases "join_tokens (u # ts)") auto
  from parse_render [OF wf, of "CHR '' '' # join_tokens (u # ts)"]
  show ?case unfolding d using 3 by simp
qed

text \<open>
  C9. \<open>parse\<close> reads the text from the left. The empty text has no token, and a space at
  the start is skipped. A text that begins with a quoted substring, in double or in single
  quotes, gives the substring without its quotes as the first token, and goes on behind
  the spaces that follow the closing quote. Any other text gives as its first token the
  characters before the first space, stripped (and without its first and last character
  when these are the same quote), and goes on behind the spaces that follow. So the
  tokens are delimited by spaces only. A quote at the start of a token that is closed
  nowhere in the rest of the text is a literal character of the token, when the token has
  further characters. A text written as well-formed tokens separated by a space gives
  back the tokens, the quoted ones without their quotes.
\<close>

theorem parse_tokens:
  "parse [] = [] \<and>
   parse (CHR '' '' # s) = parse s \<and>
   ((q = dquote \<or> q = squote) \<and> quoted q s \<longrightarrow>
      parse s = takeWhile (\<lambda>c. c \<noteq> q) (drop 1 s) #
        parse (dropWhile (\<lambda>c. c = CHR '' '')
                 (drop (2 + length (takeWhile (\<lambda>c. c \<noteq> q) (drop 1 s))) s))) \<and>
   (s \<noteq> [] \<and> hd s \<noteq> CHR '' '' \<and> \<not> quoted dquote s \<and> \<not> quoted squote s \<longrightarrow>
      parse s = parse_token [takeWhile (\<lambda>c. c \<noteq> CHR '' '') s] #
        parse (dropWhile (\<lambda>c. c = CHR '' '') (dropWhile (\<lambda>c. c \<noteq> CHR '' '') s))) \<and>
   ((q = dquote \<or> q = squote) \<and> w \<noteq> [] \<and> CHR '' '' \<notin> set w \<and> \<not> isspace (last w) \<and>
    (v = [] \<or> hd v = CHR '' '') \<and> q \<notin> set (w @ v) \<longrightarrow>
      parse (q # w @ v) = (q # w) # parse (dropWhile (\<lambda>c. c = CHR '' '') v)) \<and>
   ((\<forall>t \<in> set ts. well_formed t) \<longrightarrow> parse (join_tokens ts) = map token_text ts)"
  using parse_Nil parse_space parse_quoted parse_plain parse_unterminated parse_join_tokens
  by blast

theorem parse_tokens_witness:
  "drop 1 (parse (''cmd '' @ [dquote] @ ''a b'' @ [dquote] @ '' c'')) = [''a b'', ''c''] \<and>
   parse ([dquote] @ ''a b'' @ [dquote] @ '' c'') = ''a b'' # parse ''c'' \<and>
   parse ''ab cd'' = ''ab'' # parse ''cd'' \<and>
   parse ([dquote] @ ''ab cd'') = ([dquote] @ ''ab'') # parse ''cd''"
proof -
  have 1: "drop 1 (parse (''cmd '' @ [dquote] @ ''a b'' @ [dquote] @ '' c'')) = [''a b'', ''c'']"
    using parse_tokens [of _ _ _ _ "[Plain ''cmd'', Quoted dquote ''a b'', Plain ''c'']"]
    by (simp add: isspace_def dquote_def squote_def)
  have 2: "parse ([dquote] @ ''a b'' @ [dquote] @ '' c'') = ''a b'' # parse ''c''"
    using parse_tokens [of "[dquote] @ ''a b'' @ [dquote] @ '' c''" dquote]
    by (simp add: quoted_def startswith_def dquote_def)
  have 3: "parse ''ab cd'' = ''ab'' # parse ''cd''"
    using parse_tokens [of "''ab cd''"]
    by (simp add: quoted_def startswith_def dquote_def squote_def parse_token_def strip_def
          lstrip_def rstrip_def endswith_def isspace_def)
  have 4: "parse ([dquote] @ ''ab cd'') = ([dquote] @ ''ab'') # parse ''cd''"
    using parse_tokens [of _ dquote "''ab''" "'' cd''"]
    by (simp add: isspace_def dquote_def)
  from 1 2 3 4 show ?thesis by blast
qed

text \<open>
  Three texts after the command \<open>cmd\<close>: a tab does not end a token; a quoted substring
  that does not begin a token is cut at its space and keeps its quotes; a quote alone
  gives the empty token.
\<close>

theorem parse_not_whitespace_counterexample:
  "parse (''cmd a'' @ [CHR 0x09] @ ''b'') = [''cmd'', ''a'' @ [CHR 0x09] @ ''b''] \<and>
   parse (''cmd x'' @ [dquote] @ ''a b'' @ [dquote]) =
     [''cmd'', ''x'' @ [dquote] @ ''a'', ''b'' @ [dquote]] \<and>
   parse (''cmd '' @ [dquote]) = [''cmd'', []]"
  by code_simp

end
